theory Spec2Isabelle
  imports Main
begin

section \<open>Python values\<close>

text \<open>
  The scalar values that travel through the pipeline: JSON scalars of the catalog API
  and property values of vertices and edges. Floating-point numbers are left out.
  A dictionary is an association list in insertion order; Python guarantees that its
  keys are distinct.
\<close>

datatype pyval = VNone | VBool bool | VInt int | VStr string

type_synonym pydict = "(string \<times> pyval) list"

datatype py_error = AttributeError | IndexError | TypeError | UnboundLocalError

text \<open>Python truthiness (\<open>if x\<close>, \<open>not x\<close>).\<close>

fun truthy :: "pyval \<Rightarrow> bool" where
  "truthy VNone = False"
| "truthy (VBool b) = b"
| "truthy (VInt i) = (i \<noteq> 0)"
| "truthy (VStr s) = (s \<noteq> [])"

text \<open>\<open>dict.get(key)\<close>: the value, or \<open>None\<close> for a missing key.\<close>

definition dict_get :: "pydict \<Rightarrow> string \<Rightarrow> pyval" where
  "dict_get d k = (case map_of d k of None \<Rightarrow> VNone | Some v \<Rightarrow> v)"

text \<open>\<open>d[key] = value\<close>: overwrite in place, or append a new entry.\<close>

fun dict_set :: "pydict \<Rightarrow> string \<Rightarrow> pyval \<Rightarrow> pydict" where
  "dict_set [] k v = [(k, v)]"
| "dict_set ((k', v') # d) k v = (if k' = k then (k, v) # d else (k', v') # dict_set d k v)"

text \<open>Decimal digits of a natural number, and \<open>str\<close> of an integer.\<close>

definition digit_char :: "nat \<Rightarrow> char" where
  "digit_char d = ''0123456789'' ! d"

function show_nat :: "nat \<Rightarrow> string" where
  "show_nat n = (if n < 10 then [digit_char n] else show_nat (n div 10) @ [digit_char (n mod 10)])"
  by pat_completeness auto
termination
  by (relation "measure id") auto

declare show_nat.simps [simp del]

definition show_int :: "int \<Rightarrow> string" where
  "show_int i = (if i < 0 then CHR ''-'' # show_nat (nat (- i)) else show_nat (nat i))"

text \<open>\<open>str(value)\<close>, which is also what an f-string field \<open>{value}\<close> inserts.\<close>

fun py_str :: "pyval \<Rightarrow> string" where
  "py_str VNone = ''None''"
| "py_str (VBool b) = (if b then ''True'' else ''False'')"
| "py_str (VInt i) = show_int i"
| "py_str (VStr s) = s"

text \<open>\<open>str.lower()\<close> on ASCII text.\<close>

definition lower_char :: "char \<Rightarrow> char" where
  "lower_char c =
     (case map_of (zip ''ABCDEFGHIJKLMNOPQRSTUVWXYZ'' ''abcdefghijklmnopqrstuvwxyz'') c of
        None \<Rightarrow> c
      | Some l \<Rightarrow> l)"

definition py_lower :: "string \<Rightarrow> string" where
  "py_lower s = map lower_char s"

section \<open>Statement construction (cosmosgremlinclient.py)\<close>

abbreviation sq :: char where
  "sq \<equiv> CHR 0x27"

abbreviation bs :: char where
  "bs \<equiv> CHR 0x5C"

text \<open>The f-string fragment \<open>'{s}'\<close>: the text between two single quotes.\<close>

definition quoted :: "string \<Rightarrow> string" where
  "quoted s = sq # s @ [sq]"

text \<open>\<open>_escape_gremlin_string\<close>: \<open>value.replace("'", "\\'")\<close>.\<close>

definition escape_gremlin_string :: "string \<Rightarrow> string" where
  "escape_gremlin_string s = concat (map (\<lambda>c. if c = sq then [bs, sq] else [c]) s)"

text \<open>
  \<open>_format_properties\<close>: one \<open>.property(...)\<close> step per entry, in mapping order. A string
  value is escaped and quoted, a boolean is written in lower case, anything else is
  embedded as \<open>str\<close> gives it. The key is embedded as it is.
\<close>

definition format_property :: "string \<times> pyval \<Rightarrow> string" where
  "format_property kv =
     (case kv of (key, v) \<Rightarrow>
        (case v of
           VStr s \<Rightarrow> ''.property('' @ quoted key @ '', '' @ quoted (escape_gremlin_string s) @ '')''
         | VBool b \<Rightarrow> ''.property('' @ quoted key @ '', '' @ py_lower (py_str (VBool b)) @ '')''
         | _ \<Rightarrow> ''.property('' @ quoted key @ '', '' @ py_str v @ '')''))"

fun format_properties_loop :: "string \<Rightarrow> pydict \<Rightarrow> string" where
  "format_properties_loop props_str [] = props_str"
| "format_properties_loop props_str (kv # rest) =
     format_properties_loop (props_str @ format_property kv) rest"

definition format_properties :: "pydict option \<Rightarrow> string" where
  "format_properties properties =
     (case properties of
        None \<Rightarrow> []
      | Some d \<Rightarrow> if d = [] then [] else format_properties_loop [] d)"

text \<open>The statement of \<open>create_vertex\<close>: \<open>g.addV('{label}')\<close> and the property steps.\<close>

definition create_vertex_query :: "string \<Rightarrow> pydict option \<Rightarrow> string" where
  "create_vertex_query label properties =
     ''g.addV('' @ quoted label @ '')'' @ format_properties properties"

text \<open>
  The statement of \<open>create_edge\<close>. The two vertex ids are whatever the caller passes
  (the orchestrator passes JSON values); the f-string inserts their \<open>str\<close>.
\<close>

definition create_edge_query :: "pyval \<Rightarrow> pyval \<Rightarrow> string \<Rightarrow> pydict option \<Rightarrow> string" where
  "create_edge_query from_vertex_id to_vertex_id label properties =
     ''g.V('' @ quoted (py_str from_vertex_id) @ '')'' @
     ''.addE('' @ quoted label @ '')'' @
     ''.to(g.V('' @ quoted (py_str to_vertex_id) @ ''))'' @
     format_properties properties"

text \<open>
  The property steps of \<open>upsert_vertex\<close>, shared in shape by its update and its creation
  branch: the key is escaped, a string value is escaped and quoted, any other value is
  embedded as \<open>str\<close> gives it.
\<close>

definition upsert_property :: "string \<times> pyval \<Rightarrow> string" where
  "upsert_property kv =
     (case kv of (key, v) \<Rightarrow>
        (case v of
           VStr s \<Rightarrow> ''.property('' @ quoted (escape_gremlin_string key) @ '', '' @
                       quoted (escape_gremlin_string s) @ '')''
         | _ \<Rightarrow> ''.property('' @ quoted (escape_gremlin_string key) @ '', '' @ py_str v @ '')''))"

section \<open>The graph client (cosmosgremlinclient.py)\<close>

text \<open>
  The client object: the partition-key field and the three handles that \<open>connect\<close> sets
  and \<open>close\<close> resets. A handle is modelled by whether it is set (\<open>True\<close>) or \<open>None\<close>
  (\<open>False\<close>).
\<close>

record client =
  partition_key_field :: string
  gremlin_client :: bool
  connection :: bool
  g :: bool

text \<open>The state after \<open>__init__\<close>, after \<open>close\<close> and after a failed \<open>connect\<close>.\<close>

definition disconnected :: "client \<Rightarrow> bool" where
  "disconnected c \<longleftrightarrow> \<not> gremlin_client c \<and> \<not> connection c \<and> \<not> g c"

definition connected :: "client \<Rightarrow> bool" where
  "connected c \<longleftrightarrow> gremlin_client c \<and> connection c \<and> g c"

text \<open>
  A result record of the store: a number (as \<open>count()\<close> gives) or a JSON object (a vertex
  or an edge).
\<close>

datatype row = RInt int | RDict pydict

fun row_truthy :: "row \<Rightarrow> bool" where
  "row_truthy (RInt i) = (i \<noteq> 0)"
| "row_truthy (RDict d) = (d \<noteq> [])"

text \<open>The error messages the client prints.\<close>

datatype event =
    ErrNotConnected
  | ErrNoTraversalSource
  | ErrQueryFailed string
  | ErrUpsertArgs
  | ErrNoVertexId

text \<open>
  The graph store is a collaborator outside the repository. It is a parameter of every
  operation: a function that takes the text of a statement and its own state and gives
  the result records, or \<open>None\<close> when the driver raises, and its next state. The world
  of the client is the store's state, the statements submitted so far and the errors
  printed so far.
\<close>

type_synonym 's server = "string \<Rightarrow> 's \<Rightarrow> row list option \<times> 's"

record 's world =
  store :: 's
  sent :: "string list"
  log :: "event list"

definition print_error :: "event \<Rightarrow> 's world \<Rightarrow> 's world" where
  "print_error e w = w\<lparr>log := log w @ [e]\<rparr>"

text \<open>Submitting a statement through the driver.\<close>

definition submit :: "'s server \<Rightarrow> string \<Rightarrow> 's world \<Rightarrow> row list option \<times> 's world" where
  "submit srv query w =
     (case srv query (store w) of (r, s') \<Rightarrow> (r, w\<lparr>store := s', sent := sent w @ [query]\<rparr>))"

text \<open>
  \<open>_execute_query\<close>: refuses when the driver handle is unset; otherwise submits, and
  turns every exception of the driver into the empty list.
\<close>

definition execute_query :: "'s server \<Rightarrow> client \<Rightarrow> string \<Rightarrow> 's world \<Rightarrow> row list \<times> 's world" where
  "execute_query srv c query_string w =
     (if \<not> gremlin_client c then ([], print_error ErrNotConnected w)
      else (case submit srv query_string w of
              (Some results, w') \<Rightarrow> (results, w')
            | (None, w') \<Rightarrow> ([], print_error (ErrQueryFailed query_string) w')))"

text \<open>
  \<open>_execute_gremlin_query\<close>: no check of the handle; calling \<open>submitAsync\<close> on an unset
  handle raises inside the \<open>try\<close>, and every exception gives \<open>None\<close>.
\<close>

definition execute_gremlin_query ::
  "'s server \<Rightarrow> client \<Rightarrow> string \<Rightarrow> 's world \<Rightarrow> row list option \<times> 's world" where
  "execute_gremlin_query srv c query w =
     (if \<not> gremlin_client c then (None, print_error (ErrQueryFailed query) w)
      else (case submit srv query w of
              (Some results, w') \<Rightarrow> (Some results, w')
            | (None, w') \<Rightarrow> (None, print_error (ErrQueryFailed query) w')))"

definition create_vertex ::
  "'s server \<Rightarrow> client \<Rightarrow> string \<Rightarrow> pydict option \<Rightarrow> 's world \<Rightarrow> row list \<times> 's world" where
  "create_vertex srv c label properties w =
     (if \<not> g c then ([], print_error ErrNoTraversalSource w)
      else execute_query srv c (create_vertex_query label properties) w)"

definition create_edge ::
  "'s server \<Rightarrow> client \<Rightarrow> pyval \<Rightarrow> pyval \<Rightarrow> string \<Rightarrow> pydict option \<Rightarrow> 's world \<Rightarrow>
     row list \<times> 's world" where
  "create_edge srv c from_vertex_id to_vertex_id label properties w =
     (if \<not> g c then ([], print_error ErrNoTraversalSource w)
      else execute_query srv c (create_edge_query from_vertex_id to_vertex_id label properties) w)"

definition run_query :: "'s server \<Rightarrow> client \<Rightarrow> string \<Rightarrow> 's world \<Rightarrow> row list \<times> 's world" where
  "run_query srv c query w = execute_query srv c query w"

text \<open>\<open>if results and len(results) > 0: return results[0]\<close>, else \<open>None\<close>.\<close>

fun first_result :: "row list option \<Rightarrow> row option" where
  "first_result None = None"
| "first_result (Some []) = None"
| "first_result (Some (r # rs)) = Some r"

text \<open>The lookup statement of \<open>_find_vertex\<close>.\<close>

definition find_query :: "string \<Rightarrow> string \<Rightarrow> string \<Rightarrow> string \<Rightarrow> string" where
  "find_query pk label unique_property_name unique_property_value =
     ''g.V().hasLabel('' @ quoted (escape_gremlin_string label) @ '')'' @
     ''.has('' @ quoted pk @ '', '' @ quoted (escape_gremlin_string label) @ '')'' @
     ''.has('' @ quoted (escape_gremlin_string unique_property_name) @ '', '' @
        quoted (escape_gremlin_string unique_property_value) @ '')'' @
     ''.limit(1)''"

definition find_vertex ::
  "'s server \<Rightarrow> client \<Rightarrow> string \<Rightarrow> string \<Rightarrow> string \<Rightarrow> 's world \<Rightarrow> row option \<times> 's world" where
  "find_vertex srv c label unique_property_name unique_property_value w =
     (case execute_gremlin_query srv c
             (find_query (partition_key_field c) label unique_property_name unique_property_value) w of
        (results, w') \<Rightarrow> (first_result results, w'))"

text \<open>
  \<open>filtered_properties\<close>: the input without the keys \<open>id\<close> and \<open>label\<close>, and with the
  unique property added when it is not a key already.
\<close>

definition filtered_properties :: "string \<Rightarrow> string \<Rightarrow> pydict \<Rightarrow> pydict" where
  "filtered_properties unique_property_name unique_property_value properties =
     (let filtered = filter (\<lambda>(k, v). k \<noteq> ''id'' \<and> k \<noteq> ''label'') properties
      in if unique_property_name \<notin> set (map fst filtered)
         then filtered @ [(unique_property_name, VStr unique_property_value)]
         else filtered)"

text \<open>The loop of the update branch; \<open>continue\<close> skips the unique property, the
  partition key and \<open>id\<close>.\<close>

fun update_loop :: "string \<Rightarrow> string \<Rightarrow> string \<Rightarrow> pydict \<Rightarrow> string" where
  "update_loop pk unique_property_name gremlin_query [] = gremlin_query"
| "update_loop pk unique_property_name gremlin_query ((key, v) # rest) =
     (if key = unique_property_name \<or> key = pk \<or> key = ''id''
      then update_loop pk unique_property_name gremlin_query rest
      else update_loop pk unique_property_name (gremlin_query @ upsert_property (key, v)) rest)"

definition update_query :: "string \<Rightarrow> string \<Rightarrow> string \<Rightarrow> string \<Rightarrow> pydict \<Rightarrow> string" where
  "update_query pk vertex_id label unique_property_name filtered =
     update_loop pk unique_property_name
       (''g.V('' @ quoted (escape_gremlin_string vertex_id) @ '')'' @
        ''.has('' @ quoted pk @ '', '' @ quoted (escape_gremlin_string label) @ '')'')
       filtered"

text \<open>The loop of the creation branch; \<open>continue\<close> skips the partition key and \<open>id\<close>.\<close>

fun create_loop :: "string \<Rightarrow> string \<Rightarrow> pydict \<Rightarrow> string" where
  "create_loop pk gremlin_query [] = gremlin_query"
| "create_loop pk gremlin_query ((key, v) # rest) =
     (if key = pk \<or> key = ''id''
      then create_loop pk gremlin_query rest
      else create_loop pk (gremlin_query @ upsert_property (key, v)) rest)"

definition create_query :: "string \<Rightarrow> string \<Rightarrow> string \<Rightarrow> pydict \<Rightarrow> string" where
  "create_query pk label id_value filtered =
     create_loop pk
       (''g.addV('' @ quoted (escape_gremlin_string label) @ '')'' @
        ''.property('' @ quoted ''id'' @ '', '' @ quoted (escape_gremlin_string id_value) @ '')'' @
        ''.property('' @ quoted pk @ '', '' @ quoted (escape_gremlin_string label) @ '')'')
       filtered"

text \<open>\<open>not x\<close> for an argument that is a string or \<open>None\<close>.\<close>

fun falsy_arg :: "string option \<Rightarrow> bool" where
  "falsy_arg None = True"
| "falsy_arg (Some s) = (s = [])"

text \<open>
  \<open>upsert_vertex\<close>. The four required arguments are strings or \<open>None\<close>. The result is an
  uncaught exception, or the returned value: a result record or \<open>None\<close>.
\<close>

definition upsert_vertex ::
  "'s server \<Rightarrow> client \<Rightarrow> string option \<Rightarrow> string option \<Rightarrow> string option \<Rightarrow> string option \<Rightarrow>
     pydict \<Rightarrow> 's world \<Rightarrow> (py_error + row option) \<times> 's world" where
  "upsert_vertex srv c label id_value unique_property_name unique_property_value properties w =
     (if falsy_arg label \<or> falsy_arg id_value \<or> falsy_arg unique_property_name \<or>
         unique_property_value = None
      then (Inr None, print_error ErrUpsertArgs w)
      else
        let lbl = the label; idv = the id_value;
            upn = the unique_property_name; upv = the unique_property_value;
            pk = partition_key_field c;
            filtered = filtered_properties upn upv properties
        in (case find_vertex srv c lbl upn upv w of
              (existing_vertex, w1) \<Rightarrow>
                if (case existing_vertex of None \<Rightarrow> False | Some r \<Rightarrow> row_truthy r)
                then
                  (case existing_vertex of
                     Some (RDict d) \<Rightarrow>
                       (let vertex_id = dict_get d ''id'' in
                        if \<not> truthy vertex_id then (Inr None, print_error ErrNoVertexId w1)
                        else (case vertex_id of
                                VStr vid \<Rightarrow>
                                  (case execute_gremlin_query srv c
                                          (update_query pk vid lbl upn filtered) w1 of
                                     (results, w2) \<Rightarrow> (Inr (first_result results), w2))
                              | _ \<Rightarrow> (Inl AttributeError, w1)))
                   | _ \<Rightarrow> (Inl AttributeError, w1))
                else
                  (case execute_gremlin_query srv c (create_query pk lbl idv filtered) w1 of
                     (results, w2) \<Rightarrow> (Inr (first_result results), w2))))"

section \<open>The paginated fetchers (collibrarestassets.py, collibrarestrelations.py)\<close>

text \<open>
  An HTTP GET as \<open>requests.get\<close> sends it: the URL and the \<open>params=\<close> argument (\<open>None\<close> when
  the call passes none). The catalog is a collaborator outside the repository: a function
  from the number of requests it has answered before and the request to its answer. An
  answer is a transport failure (\<open>requests.get\<close> raises), a response whose status makes
  \<open>raise_for_status\<close> raise, or a decoded JSON body with its optional \<open>results\<close> and
  \<open>total\<close> fields. The inter-page delay is not modelled.
\<close>

record request =
  req_url :: string
  req_params :: "pydict option"

datatype 'r response = TransportError | BadStatus | Body "'r list option" "int option"

type_synonym 'r catalog = "nat \<Rightarrow> request \<Rightarrow> 'r response"

text \<open>\<open>data.get("results", [])\<close> and \<open>data.get("total", 0)\<close>.\<close>

definition get_results :: "'r list option \<Rightarrow> 'r list" where
  "get_results r = (case r of None \<Rightarrow> [] | Some xs \<Rightarrow> xs)"

definition get_total :: "int option \<Rightarrow> int" where
  "get_total t = (case t of None \<Rightarrow> 0 | Some n \<Rightarrow> n)"

definition assets_limit :: nat where
  "assets_limit = 100"

definition assets_request :: "string \<Rightarrow> nat \<Rightarrow> request" where
  "assets_request collibra_url offset =
     \<lparr>req_url = collibra_url @ ''/rest/2.0/assets?offset='' @ show_nat offset @
                  ''&limit='' @ show_nat assets_limit,
      req_params = None\<rparr>"

text \<open>
  The \<open>while True\<close> loop of \<open>get_all_collibra_assets_basic_auth\<close>. Its state is the
  list \<open>assets\<close>, the \<open>offset\<close>, whether the local variable \<open>response\<close> is bound yet, and the
  requests sent so far. The handler of a request failure reads \<open>response.text\<close> before it
  leaves the loop: when \<open>requests.get\<close> itself raised on the first iteration the variable
  is unbound and the handler raises; on a later iteration it holds the previous response.
  The result is the uncaught exception or the returned list, and the requests sent.
\<close>

partial_function (option) assets_loop ::
  "'r catalog \<Rightarrow> string \<Rightarrow> 'r list \<Rightarrow> nat \<Rightarrow> bool \<Rightarrow> request list \<Rightarrow>
     ((py_error + 'r list) \<times> request list) option" where
  "assets_loop srv collibra_url assets offset response_bound reqs =
     (case srv (length reqs) (assets_request collibra_url offset) of
        TransportError \<Rightarrow>
          if response_bound
          then Some (Inr assets, reqs @ [assets_request collibra_url offset])
          else Some (Inl UnboundLocalError, reqs @ [assets_request collibra_url offset])
      | BadStatus \<Rightarrow> Some (Inr assets, reqs @ [assets_request collibra_url offset])
      | Body results tot \<Rightarrow>
          if get_total tot \<le> int (length (assets @ get_results results))
          then Some (Inr (assets @ get_results results), reqs @ [assets_request collibra_url offset])
          else assets_loop srv collibra_url (assets @ get_results results)
                 (offset + length (get_results results)) True
                 (reqs @ [assets_request collibra_url offset]))"

definition get_all_collibra_assets_basic_auth ::
  "'r catalog \<Rightarrow> string \<Rightarrow> ((py_error + 'r list) \<times> request list) option" where
  "get_all_collibra_assets_basic_auth srv collibra_url = assets_loop srv collibra_url [] 0 False []"

definition paginated_limit :: nat where
  "paginated_limit = 1000"

text \<open>
  The \<open>while len(all_results) < total\<close> loop of \<open>get_paginated_data\<close>. Each round
  writes \<open>offset\<close> and \<open>limit\<close> into the caller's \<open>params\<close> dictionary, and then calls
  \<open>requests.get(endpoint, auth=auth, headers=headers)\<close>: the call that passes
  \<open>params=params\<close> is commented out. A request failure returns the empty list. The
  result is the returned list, the \<open>params\<close> dictionary as the loop leaves it, and the
  requests sent.
\<close>

definition paginated_request :: "string \<Rightarrow> request" where
  "paginated_request endpoint = \<lparr>req_url = endpoint, req_params = None\<rparr>"

definition paginated_params :: "pydict \<Rightarrow> nat \<Rightarrow> pydict" where
  "paginated_params params offset =
     dict_set (dict_set params ''offset'' (VInt (int offset))) ''limit'' (VInt (int paginated_limit))"

partial_function (option) paginated_loop ::
  "'r catalog \<Rightarrow> string \<Rightarrow> pydict \<Rightarrow> 'r list \<Rightarrow> int \<Rightarrow> nat \<Rightarrow> request list \<Rightarrow>
     ('r list \<times> pydict \<times> request list) option" where
  "paginated_loop srv endpoint params all_results total_seen offset reqs =
     (if int (length all_results) < total_seen
      then
        (case srv (length reqs) (paginated_request endpoint) of
           TransportError \<Rightarrow>
             Some ([], paginated_params params offset, reqs @ [paginated_request endpoint])
         | BadStatus \<Rightarrow>
             Some ([], paginated_params params offset, reqs @ [paginated_request endpoint])
         | Body results tot \<Rightarrow>
             paginated_loop srv endpoint (paginated_params params offset)
               (all_results @ get_results results)
               (if offset = 0 then get_total tot else total_seen)
               (offset + length (get_results results))
               (reqs @ [paginated_request endpoint]))
      else Some (all_results, params, reqs))"

definition get_paginated_data ::
  "'r catalog \<Rightarrow> string \<Rightarrow> pydict \<Rightarrow> ('r list \<times> pydict \<times> request list) option" where
  "get_paginated_data srv endpoint params = paginated_loop srv endpoint params [] 1 0 []"

section \<open>The orchestrator (knowgraphcollibra.py)\<close>

definition drop_limit :: nat where
  "drop_limit = 10"

definition count_query :: string where
  "count_query = ''g.V().count()''"

definition drop_query :: string where
  "drop_query = ''g.V().limit('' @ show_nat drop_limit @ '').drop()''"

text \<open>
  The loop that drains the store: count, stop at zero, else drop the next batch. Indexing
  the empty result list of a failed count raises. The loop need not end (a store that
  never reaches zero), so that not returning is the value \<open>None\<close>.
\<close>

partial_function (option) drain_loop ::
  "'s server \<Rightarrow> client \<Rightarrow> 's world \<Rightarrow> ((py_error + unit) \<times> 's world) option" where
  "drain_loop srv c w =
     (case run_query srv c count_query w of
        ([], w1) \<Rightarrow> Some (Inl IndexError, w1)
      | (remaining # others, w1) \<Rightarrow>
          if remaining = RInt 0 then Some (Inr (), w1)
          else drain_loop srv c (snd (run_query srv c drop_query w1)))"

text \<open>The statement of the edge that the orchestrator creates for a relation record.\<close>

definition relation_edge_query :: "pydict \<Rightarrow> string" where
  "relation_edge_query rel =
     create_edge_query (dict_get rel ''source_id'') (dict_get rel ''target_id'') ''relatedTo''
       (Some [(''relationTypeId'', dict_get rel ''relation_type_id'')])"

definition has_both_ids :: "pydict \<Rightarrow> bool" where
  "has_both_ids rel \<longleftrightarrow> truthy (dict_get rel ''source_id'') \<and> truthy (dict_get rel ''target_id'')"

text \<open>The loop over the fetched relations.\<close>

fun relation_loop :: "'s server \<Rightarrow> client \<Rightarrow> pydict list \<Rightarrow> 's world \<Rightarrow> 's world" where
  "relation_loop srv c [] w = w"
| "relation_loop srv c (rel # rels) w =
     (let source_id = dict_get rel ''source_id'';
          target_id = dict_get rel ''target_id'';
          relation_type_id = dict_get rel ''relation_type_id''
      in if truthy source_id \<and> truthy target_id
         then relation_loop srv c rels
                (snd (create_edge srv c source_id target_id ''relatedTo''
                        (Some [(''relationTypeId'', relation_type_id)]) w))
         else relation_loop srv c rels w)"

section \<open>The graph store\<close>

text \<open>
  Modelled from the spec: the graph store, a collaborator that "accepts textual traversal
  statements" and "returns JSON-like result lists". The repository holds no code of it,
  so the store below is a reference reading of the statements that the client builds:
  a list of vertices, each with a label and properties, and an interpreter for the
  steps \<open>V\<close>, \<open>addV\<close>, \<open>hasLabel\<close>, \<open>has\<close>, \<open>limit\<close>, \<open>property\<close>, \<open>count\<close> and \<open>drop\<close>.
  The id of a vertex is its property \<open>id\<close>. A statement that the interpreter cannot
  read, or a step it does not know, is an error and leaves the store as it is.

  The text of a statement is cut into tokens first. Between single quotes a backslash
  makes the next character part of the string, so that \<open>\'\<close> stands for a quote.
\<close>

datatype token = TQuoted string | TWord string | TDot | TOpen | TClose | TComma

datatype lex_mode = Outside | Inside | Escaped

definition flush_word :: "string \<Rightarrow> token list \<Rightarrow> token list" where
  "flush_word acc toks = (if acc = [] then toks else TWord (rev acc) # toks)"

text \<open>One character of input; the word or string read so far and the tokens are kept
  in reverse.\<close>

fun lex_step :: "lex_mode \<times> string \<times> token list \<Rightarrow> char \<Rightarrow> lex_mode \<times> string \<times> token list" where
  "lex_step (Outside, acc, toks) c =
     (if c = sq then (Inside, [], flush_word acc toks)
      else if c = CHR ''.'' then (Outside, [], TDot # flush_word acc toks)
      else if c = CHR ''('' then (Outside, [], TOpen # flush_word acc toks)
      else if c = CHR '')'' then (Outside, [], TClose # flush_word acc toks)
      else if c = CHR '','' then (Outside, [], TComma # flush_word acc toks)
      else if c = CHR '' '' then (Outside, [], flush_word acc toks)
      else (Outside, c # acc, toks))"
| "lex_step (Inside, acc, toks) c =
     (if c = sq then (Outside, [], TQuoted (rev acc) # toks)
      else if c = bs then (Escaped, acc, toks)
      else (Inside, c # acc, toks))"
| "lex_step (Escaped, acc, toks) c = (Inside, c # acc, toks)"

definition tokens :: "string \<Rightarrow> token list option" where
  "tokens s =
     (case foldl lex_step (Outside, [], []) s of
        (Outside, acc, toks) \<Rightarrow> Some (rev (flush_word acc toks))
      | _ \<Rightarrow> None)"

text \<open>An argument of a step is a quoted string or a bare word (a number, \<open>true\<close>).\<close>

datatype arg = AQuoted string | ABare string

datatype step = Step string "arg list"

datatype parse_state =
    PIdle
  | PDot
  | PName string
  | PArgs string "arg list"
  | PAfterArg string "arg list"
  | PFail

text \<open>One token of input: the steps \<open>.name(arg, ...)\<close> read so far, in reverse, and the
  position inside the current step.\<close>

fun parse_step :: "step list \<times> parse_state \<Rightarrow> token \<Rightarrow> step list \<times> parse_state" where
  "parse_step (ss, PIdle) TDot = (ss, PDot)"
| "parse_step (ss, PDot) (TWord name) = (ss, PName name)"
| "parse_step (ss, PName name) TOpen = (ss, PArgs name [])"
| "parse_step (ss, PArgs name args) (TQuoted s) = (ss, PAfterArg name (AQuoted s # args))"
| "parse_step (ss, PArgs name args) (TWord w) = (ss, PAfterArg name (ABare w # args))"
| "parse_step (ss, PArgs name args) TClose =
     (if args = [] then (Step name [] # ss, PIdle) else (ss, PFail))"
| "parse_step (ss, PAfterArg name args) TComma = (ss, PArgs name args)"
| "parse_step (ss, PAfterArg name args) TClose = (Step name (rev args) # ss, PIdle)"
| "parse_step (ss, p) t = (ss, PFail)"

definition parse_steps :: "token list \<Rightarrow> step list option" where
  "parse_steps ts =
     (case foldl parse_step ([], PIdle) ts of
        (ss, PIdle) \<Rightarrow> Some (rev ss)
      | _ \<Rightarrow> None)"

text \<open>A statement is the traversal source \<open>g\<close> and its steps.\<close>

definition parse_statement :: "string \<Rightarrow> step list option" where
  "parse_statement q =
     (case tokens q of
        Some (TWord w # ts) \<Rightarrow> if w = ''g'' then parse_steps ts else None
      | _ \<Rightarrow> None)"

text \<open>Reading a bare word as a value.\<close>

definition digit_value :: "char \<Rightarrow> nat option" where
  "digit_value c = map_of (zip ''0123456789'' [0, 1, 2, 3, 4, 5, 6, 7, 8, 9]) c"

fun read_digits :: "nat \<Rightarrow> string \<Rightarrow> nat option" where
  "read_digits n [] = Some n"
| "read_digits n (c # cs) =
     (case digit_value c of None \<Rightarrow> None | Some d \<Rightarrow> read_digits (10 * n + d) cs)"

definition read_nat :: "string \<Rightarrow> nat option" where
  "read_nat w = (if w = [] then None else read_digits 0 w)"

definition read_literal :: "string \<Rightarrow> pyval" where
  "read_literal w =
     (if w = ''true'' then VBool True
      else if w = ''false'' then VBool False
      else (case w of
              [] \<Rightarrow> VNone
            | c # ds \<Rightarrow>
                if c = CHR ''-''
                then (case read_nat ds of None \<Rightarrow> VNone | Some n \<Rightarrow> VInt (- int n))
                else (case read_nat w of None \<Rightarrow> VNone | Some n \<Rightarrow> VInt (int n))))"

fun arg_value :: "arg \<Rightarrow> pyval" where
  "arg_value (AQuoted s) = VStr s"
| "arg_value (ABare w) = read_literal w"

text \<open>A vertex: its label and its properties, each with the argument that set it.\<close>

record vertex =
  v_label :: string
  v_props :: "(string \<times> arg) list"

definition get_prop :: "vertex \<Rightarrow> string \<Rightarrow> arg option" where
  "get_prop x k = map_of (v_props x) k"

fun put :: "string \<Rightarrow> arg \<Rightarrow> (string \<times> arg) list \<Rightarrow> (string \<times> arg) list" where
  "put k a [] = [(k, a)]"
| "put k a ((k', a') # ps) = (if k' = k then (k, a) # ps else (k', a') # put k a ps)"

definition set_prop :: "string \<Rightarrow> arg \<Rightarrow> vertex \<Rightarrow> vertex" where
  "set_prop k a x = x\<lparr>v_props := put k a (v_props x)\<rparr>"

text \<open>The JSON object that the store returns for a vertex.\<close>

definition vertex_row :: "vertex \<Rightarrow> row" where
  "vertex_row x =
     RDict ((''label'', VStr (v_label x)) # map (\<lambda>(k, a). (k, arg_value a)) (v_props x))"

text \<open>
  A traversal walks over the vertices of the store, each marked as selected or not.
  \<open>limit\<close> keeps the first selected ones.
\<close>

fun limit_marked :: "nat \<Rightarrow> (bool \<times> vertex) list \<Rightarrow> (bool \<times> vertex) list" where
  "limit_marked n [] = []"
| "limit_marked n ((b, x) # st) =
     (if b then (case n of 0 \<Rightarrow> (False, x) # limit_marked 0 st
                 | Suc m \<Rightarrow> (True, x) # limit_marked m st)
      else (False, x) # limit_marked n st)"

fun run_steps :: "step list \<Rightarrow> (bool \<times> vertex) list \<Rightarrow> (row list \<times> vertex list) option" where
  "run_steps [] st = Some (map (\<lambda>(b, x). vertex_row x) (filter fst st), map snd st)"
| "run_steps (Step name args # rest) st =
     (if name = ''hasLabel'' then
        (case args of
           [AQuoted l] \<Rightarrow> run_steps rest (map (\<lambda>(b, x). (b \<and> v_label x = l, x)) st)
         | _ \<Rightarrow> None)
      else if name = ''has'' then
        (case args of
           [AQuoted k, a] \<Rightarrow> run_steps rest (map (\<lambda>(b, x). (b \<and> get_prop x k = Some a, x)) st)
         | _ \<Rightarrow> None)
      else if name = ''limit'' then
        (case args of
           [ABare w] \<Rightarrow>
             (case read_nat w of None \<Rightarrow> None | Some n \<Rightarrow> run_steps rest (limit_marked n st))
         | _ \<Rightarrow> None)
      else if name = ''property'' then
        (case args of
           [AQuoted k, a] \<Rightarrow>
             run_steps rest (map (\<lambda>(b, x). (b, if b then set_prop k a x else x)) st)
         | _ \<Rightarrow> None)
      else if name = ''count'' then
        (if args = [] \<and> rest = [] then Some ([RInt (int (length (filter fst st)))], map snd st)
         else None)
      else if name = ''drop'' then
        (if args = [] \<and> rest = [] then Some ([], map snd (filter (\<lambda>(b, x). \<not> b) st))
         else None)
      else None)"

text \<open>The first step chooses where the traversal starts.\<close>

fun run_statement :: "step list \<Rightarrow> vertex list \<Rightarrow> (row list \<times> vertex list) option" where
  "run_statement [] vs = None"
| "run_statement (Step name args # rest) vs =
     (if name = ''V'' then
        (case args of
           [] \<Rightarrow> run_steps rest (map (\<lambda>x. (True, x)) vs)
         | [AQuoted i] \<Rightarrow> run_steps rest (map (\<lambda>x. (get_prop x ''id'' = Some (AQuoted i), x)) vs)
         | _ \<Rightarrow> None)
      else if name = ''addV'' then
        (case args of
           [AQuoted l] \<Rightarrow>
             run_steps rest (map (\<lambda>x. (False, x)) vs @ [(True, \<lparr>v_label = l, v_props = []\<rparr>)])
         | _ \<Rightarrow> None)
      else None)"

definition gremlin_store :: "vertex list server" where
  "gremlin_store q vs =
     (case parse_statement q of
        None \<Rightarrow> (None, vs)
      | Some steps \<Rightarrow>
          (case run_statement steps vs of
             None \<Rightarrow> (None, vs)
           | Some (rows, vs') \<Rightarrow> (Some rows, vs')))"

text \<open>
  A call of \<open>upsert_vertex\<close> with a fixed unique property name, and a sequence of such
  calls, each on the world that the one before left. An uncaught exception ends the
  sequence.
\<close>

record upsert_call =
  c_label :: string
  c_id :: string
  c_value :: string
  c_props :: pydict

definition upsert_call ::
  "'s server \<Rightarrow> client \<Rightarrow> string \<Rightarrow> upsert_call \<Rightarrow> 's world \<Rightarrow> (py_error + row option) \<times> 's world" where
  "upsert_call srv c u k w =
     upsert_vertex srv c (Some (c_label k)) (Some (c_id k)) (Some u) (Some (c_value k)) (c_props k) w"

fun upsert_all :: "'s server \<Rightarrow> client \<Rightarrow> string \<Rightarrow> upsert_call list \<Rightarrow> 's world \<Rightarrow> 's world" where
  "upsert_all srv c u [] w = w"
| "upsert_all srv c u (k # ks) w =
     (case upsert_call srv c u k w of
        (Inl e, w') \<Rightarrow> w'
      | (Inr r, w') \<Rightarrow> upsert_all srv c u ks w')"

text \<open>
  The uniqueness invariant for the unique property \<open>u\<close>: no two vertices have the same
  label and the same value of \<open>u\<close>.
\<close>

definition vertices_with :: "string \<Rightarrow> string \<Rightarrow> arg \<Rightarrow> vertex list \<Rightarrow> vertex list" where
  "vertices_with l u a vs = filter (\<lambda>x. v_label x = l \<and> get_prop x u = Some a) vs"

definition unique_property :: "string \<Rightarrow> vertex list \<Rightarrow> bool" where
  "unique_property u vs \<longleftrightarrow> (\<forall>l a. length (vertices_with l u a vs) \<le> 1)"

text \<open>The tokens and the step that a property step of \<open>upsert_vertex\<close> reads as.\<close>

definition value_token :: "pyval \<Rightarrow> token" where
  "value_token v = (case v of VStr s \<Rightarrow> TQuoted s | _ \<Rightarrow> TWord (py_str v))"

definition value_arg :: "pyval \<Rightarrow> arg" where
  "value_arg v = (case v of VStr s \<Rightarrow> AQuoted s | _ \<Rightarrow> ABare (py_str v))"

definition clause_tokens :: "string \<times> pyval \<Rightarrow> token list" where
  "clause_tokens kv =
     [TDot, TWord ''property'', TOpen, TQuoted (fst kv), TComma, value_token (snd kv), TClose]"

definition clause_step :: "string \<times> pyval \<Rightarrow> step" where
  "clause_step kv = Step ''property'' [AQuoted (fst kv), value_arg (snd kv)]"

text \<open>
  Text that the escaping of the client carries through to the store unchanged: it holds
  no backslash. The partition-key field is embedded without escaping, so that it must
  hold no quote either.
\<close>

definition clean :: "string \<Rightarrow> bool" where
  "clean s \<longleftrightarrow> bs \<notin> set s"

definition plain :: "string \<Rightarrow> bool" where
  "plain s \<longleftrightarrow> bs \<notin> set s \<and> sq \<notin> set s"

definition clean_entry :: "string \<times> pyval \<Rightarrow> bool" where
  "clean_entry kv \<longleftrightarrow> clean (fst kv) \<and> (case snd kv of VStr s \<Rightarrow> clean s | _ \<Rightarrow> True)"

definition word_char :: "char \<Rightarrow> bool" where
  "word_char c \<longleftrightarrow> c \<notin> set (sq # ''.(), '')"

text \<open>The effect of a run of property steps on a vertex, and the vertex that the creation
  statement of \<open>upsert_vertex\<close> adds.\<close>

definition apply_props :: "pydict \<Rightarrow> vertex \<Rightarrow> vertex" where
  "apply_props kvs x = foldl (\<lambda>y kv. set_prop (fst kv) (value_arg (snd kv)) y) x kvs"

definition new_vertex :: "string \<Rightarrow> string \<Rightarrow> string \<Rightarrow> pydict \<Rightarrow> vertex" where
  "new_vertex pk l i kvs =
     apply_props (filter (\<lambda>(k, v). k \<noteq> pk \<and> k \<noteq> ''id'') kvs)
       (set_prop pk (AQuoted l) (set_prop ''id'' (AQuoted i) \<lparr>v_label = l, v_props = []\<rparr>))"

text \<open>The vertices that the lookup of \<open>upsert_vertex\<close> asks for.\<close>

definition looked_up :: "string \<Rightarrow> string \<Rightarrow> string \<Rightarrow> string \<Rightarrow> vertex \<Rightarrow> bool" where
  "looked_up pk l u v x \<longleftrightarrow>
     v_label x = l \<and> get_prop x pk = Some (AQuoted l) \<and> get_prop x u = Some (AQuoted v)"

text \<open>
  A store in which every vertex carries its label as partition key and has a non-empty
  id without backslash, and in which the unique property \<open>u\<close> is unique.
\<close>

definition store_ok :: "string \<Rightarrow> string \<Rightarrow> vertex list \<Rightarrow> bool" where
  "store_ok pk u vs \<longleftrightarrow>
     (\<forall>x\<in>set vs. get_prop x pk = Some (AQuoted (v_label x)) \<and>
                  (\<exists>i. i \<noteq> [] \<and> clean i \<and> get_prop x ''id'' = Some (AQuoted i))) \<and>
     unique_property u vs"

text \<open>
  A call whose texts hold no backslash, whose properties are a dictionary that agrees
  with the unique value on the unique property, and whose id is the unique value when
  the unique property is \<open>id\<close>.
\<close>

definition call_ok :: "string \<Rightarrow> upsert_call \<Rightarrow> bool" where
  "call_ok u k \<longleftrightarrow>
     clean (c_label k) \<and> clean (c_id k) \<and> clean (c_value k) \<and>
     (\<forall>kv\<in>set (c_props k). clean_entry kv) \<and>
     distinct (map fst (c_props k)) \<and>
     (u \<noteq> ''id'' \<and> u \<noteq> ''label'' \<longrightarrow> (\<forall>v. (u, v) \<in> set (c_props k) \<longrightarrow> v = VStr (c_value k))) \<and>
     (u = ''id'' \<longrightarrow> c_id k = c_value k)"

section \<open>The catalog\<close>

text \<open>
  Modelled from the spec: the catalog API, a collaborator reached by "HTTP GET, query
  parameters \<open>offset\<close>, \<open>limit\<close>" with the "JSON response shape \<open>{results: [...], total: int}\<close>".
  The repository holds no code of it. The catalog below holds a list of records and
  answers a request with the records from the offset it asks for, as many as the limit
  it asks for and at most \<open>cap\<close> of them, together with the total. It reads the two
  parameters from the \<open>params\<close> of the request when they are there, else from the query
  string of the URL; a request that names no offset is answered from offset zero, one
  that names no limit with \<open>cap\<close> records.
\<close>

fun split_on :: "char \<Rightarrow> string \<Rightarrow> string list" where
  "split_on c [] = [[]]"
| "split_on c (x # xs) =
     (if x = c then [] # split_on c xs
      else (case split_on c xs of [] \<Rightarrow> [[x]] | y # ys \<Rightarrow> (x # y) # ys))"

definition query_string :: "string \<Rightarrow> string" where
  "query_string url = drop 1 (dropWhile (\<lambda>x. x \<noteq> CHR ''?'') url)"

definition query_field :: "string \<Rightarrow> string \<times> string" where
  "query_field f =
     (takeWhile (\<lambda>x. x \<noteq> CHR ''='') f, drop 1 (dropWhile (\<lambda>x. x \<noteq> CHR ''='') f))"

definition url_param :: "string \<Rightarrow> string \<Rightarrow> nat option" where
  "url_param url name =
     (case map_of (map query_field (split_on CHR ''&'' (query_string url))) name of
        None \<Rightarrow> None
      | Some v \<Rightarrow> read_nat v)"

definition asked :: "request \<Rightarrow> string \<Rightarrow> nat option" where
  "asked req name =
     (case req_params req of
        None \<Rightarrow> url_param (req_url req) name
      | Some d \<Rightarrow>
          (case map_of d name of
             Some (VInt i) \<Rightarrow> Some (nat i)
           | _ \<Rightarrow> url_param (req_url req) name))"

definition offset_catalog :: "'r list \<Rightarrow> nat \<Rightarrow> 'r catalog" where
  "offset_catalog rs cap n req =
     (let offset = (case asked req ''offset'' of None \<Rightarrow> 0 | Some k \<Rightarrow> k);
          limit = (case asked req ''limit'' of None \<Rightarrow> cap | Some k \<Rightarrow> min k cap)
      in Body (Some (take limit (drop offset rs))) (Some (int (length rs))))"

section \<open>Notions used in the statements\<close>

text \<open>
  The client of the orchestrator after \<open>connect\<close>, with the default partition-key field,
  and the client as \<open>__init__\<close> leaves it.
\<close>

definition orchestrator_client :: client where
  "orchestrator_client =
     \<lparr>partition_key_field = ''resourceType'', gremlin_client = True, connection = True, g = True\<rparr>"

definition new_client :: client where
  "new_client =
     \<lparr>partition_key_field = ''resourceType'', gremlin_client = False, connection = False, g = False\<rparr>"

definition initial_world :: "'s \<Rightarrow> 's world" where
  "initial_world s = \<lparr>store = s, sent = [], log = []\<rparr>"

text \<open>The number of pages of \<open>limit\<close> records that hold \<open>n\<close> records: \<open>n / limit\<close> rounded up.\<close>

definition pages_needed :: "nat \<Rightarrow> nat \<Rightarrow> nat" where
  "pages_needed n limit = (n + limit - 1) div limit"

text \<open>Two sample inputs: the upsert of a domain as the orchestrator issues it, and two
  upserts of one unique value whose properties carry another value for the unique
  property.\<close>

definition domain_call :: upsert_call where
  "domain_call =
     \<lparr>c_label = ''Domain'', c_id = ''D1'', c_value = ''D1'',
      c_props = [(''id'', VStr ''D1''), (''resourceType'', VStr ''Domain''), (''name'', VStr ''Finance'')]\<rparr>"

definition conflicting_calls :: "upsert_call list" where
  "conflicting_calls =
     [\<lparr>c_label = ''Domain'', c_id = ''d1'', c_value = ''A'', c_props = [(''name'', VStr ''B'')]\<rparr>,
      \<lparr>c_label = ''Domain'', c_id = ''d2'', c_value = ''A'', c_props = [(''name'', VStr ''B'')]\<rparr>]"

section \<open>Statement text\<close>

lemma py_lower_bool: "py_lower (py_str (VBool b)) = (if b then ''true'' else ''false'')"
  by (simp add: py_lower_def lower_char_def)

lemma format_properties_loop_eq:
  "format_properties_loop acc d = acc @ concat (map format_property d)"
  by (induction d arbitrary: acc) auto

lemma update_loop_eq:
  "update_loop pk upn acc d =
     acc @ concat (map upsert_property (filter (\<lambda>(k, v). k \<noteq> upn \<and> k \<noteq> pk \<and> k \<noteq> ''id'') d))"
  by (induction d arbitrary: acc) auto

lemma create_loop_eq:
  "create_loop pk acc d =
     acc @ concat (map upsert_property (filter (\<lambda>(k, v). k \<noteq> pk \<and> k \<noteq> ''id'') d))"
  by (induction d arbitrary: acc) auto

text \<open>
  Claim C2. Every string embedded in a built statement should have its single quotes
  escaped, and booleans should be written \<open>true\<close>/\<open>false\<close>. The statements of
  \<open>create_edge\<close> and \<open>create_vertex\<close> embed vertex ids, labels and property keys as they
  are, so that a quote in one of them reaches the statement unescaped, while
  \<open>upsert_vertex\<close> escapes its label, ids and keys. The property steps of \<open>upsert_vertex\<close>
  embed a boolean as Python prints it, while \<open>_format_properties\<close> writes it in lower case.
\<close>

theorem statements_embed_unescaped_text:
  "create_edge_query (VStr ''a'b'') (VStr ''t'') ''relatedTo'' (Some [(''k'y'', VStr ''v'')]) =
     ''g.V('a'b').addE('relatedTo').to(g.V('t')).property('k'y', 'v')'' \<and>
   create_vertex_query ''O'Brien'' None = ''g.addV('O'Brien')'' \<and>
   upsert_property (''flag'', VBool True) = ''.property('flag', True)'' \<and>
   format_property (''flag'', VBool True) = ''.property('flag', true)''"
  by (simp add: create_edge_query_def create_vertex_query_def format_properties_def
      format_property_def upsert_property_def quoted_def escape_gremlin_string_def
      py_lower_def lower_char_def)

section \<open>The paginated fetchers\<close>

lemma pages_needed_last:
  assumes "0 < L" "k * L < n" "n \<le> Suc k * L"
  shows "pages_needed n L = Suc k"
proof -
  have "(n + L - 1) div L = Suc k"
  proof (rule div_nat_eqI)
    show "L * Suc k \<le> n + L - 1" using assms by (simp add: mult.commute)
    show "n + L - 1 < L * Suc (Suc k)" using assms by (simp add: mult.commute)
  qed
  then show ?thesis by (simp add: pages_needed_def)
qed

lemma pages_needed_more:
  assumes "0 < L" "Suc k * L < n"
  shows "Suc k < pages_needed n L"
proof -
  have "Suc (Suc k) * L \<le> n + L - 1" using assms by simp
  then have "Suc (Suc k) \<le> (n + L - 1) div L"
    using assms(1) by (simp add: less_eq_div_iff_mult_less_eq)
  then show ?thesis by (simp add: pages_needed_def)
qed

lemma take_page: "take (k * L) rs @ take L (drop (k * L) rs) = take (Suc k * L) rs"
proof -
  have "Suc k * L = k * L + L" by simp
  then show ?thesis by (simp only: take_add)
qed

lemma digit_value_digit_char: "d < 10 \<Longrightarrow> digit_value (digit_char d) = Some d"
proof -
  assume "d < 10"
  then have "d \<in> {0, 1, 2, 3, 4, 5, 6, 7, 8, 9}" by auto
  then show ?thesis by (auto simp: digit_char_def digit_value_def)
qed

lemma read_digits_append:
  "read_digits a (xs @ ys) = (case read_digits a xs of None \<Rightarrow> None | Some m \<Rightarrow> read_digits m ys)"
  by (induction xs arbitrary: a) (auto split: option.splits)

lemma read_digits_show_nat: "read_digits 0 (show_nat n) = Some n"
proof (induction n rule: show_nat.induct)
  case (1 n)
  show ?case
  proof (cases "n < 10")
    case True
    then show ?thesis by (subst show_nat.simps) (simp add: digit_value_digit_char)
  next
    case False
    then have "read_digits 0 (show_nat (n div 10)) = Some (n div 10)" using 1 by simp
    then show ?thesis
      using False by (subst show_nat.simps) (simp add: read_digits_append digit_value_digit_char)
  qed
qed

lemma show_nat_nonempty: "show_nat n \<noteq> []"
  by (subst show_nat.simps) simp

lemma read_nat_show_nat: "read_nat (show_nat n) = Some n"
  by (simp add: read_nat_def show_nat_nonempty read_digits_show_nat)

lemma show_nat_digits: "set (show_nat n) \<subseteq> set ''0123456789''"
proof (induction n rule: show_nat.induct)
  case (1 n)
  have d: "digit_char k \<in> set ''0123456789''" if "k < 10" for k
  proof -
    from that have "k \<in> {0, 1, 2, 3, 4, 5, 6, 7, 8, 9}" by auto
    then show ?thesis by (auto simp: digit_char_def)
  qed
  show ?case
  proof (cases "n < 10")
    case True
    then show ?thesis using d[of n] by (subst show_nat.simps) simp
  next
    case False
    then show ?thesis using 1 d[of "n mod 10"] by (subst show_nat.simps) auto
  qed
qed

lemma split_on_plain: "c \<notin> set a \<Longrightarrow> split_on c a = [a]"
  by (induction a) auto

lemma split_on_append: "c \<notin> set a \<Longrightarrow> split_on c (a @ c # rest) = a # split_on c rest"
  by (induction a) auto

lemma query_string_append:
  "CHR ''?'' \<notin> set a \<Longrightarrow> query_string (a @ CHR ''?'' # q) = q"
  by (induction a) (auto simp: query_string_def)

lemma assets_request_asks:
  assumes "CHR ''?'' \<notin> set url"
  shows "asked (assets_request url offset) ''offset'' = Some offset"
    and "asked (assets_request url offset) ''limit'' = Some assets_limit"
proof -
  have amp: "CHR ''&'' \<notin> set (''offset='' @ show_nat offset)"
       "CHR ''&'' \<notin> set (''limit='' @ show_nat assets_limit)"
    using show_nat_digits by auto
  have eq: "CHR ''='' \<notin> set (show_nat offset)" "CHR ''='' \<notin> set (show_nat assets_limit)"
    using show_nat_digits by auto
  have q: "CHR ''?'' \<notin> set (url @ ''/rest/2.0/assets'')" using assms by simp
  have "query_string (req_url (assets_request url offset)) =
          (''offset='' @ show_nat offset) @ CHR ''&'' # (''limit='' @ show_nat assets_limit)"
    using query_string_append[OF q] by (simp add: assets_request_def)
  then have fields: "map query_field (split_on CHR ''&'' (query_string (req_url (assets_request url offset)))) =
          [(''offset'', show_nat offset), (''limit'', show_nat assets_limit)]"
    by (simp only: split_on_append[OF amp(1)] split_on_plain[OF amp(2)])
       (simp add: query_field_def)
  have rp: "req_params (assets_request url offset) = None"
    by (simp add: assets_request_def)
  have "url_param (req_url (assets_request url offset)) ''offset'' = Some offset"
    unfolding url_param_def fields by (simp add: read_nat_show_nat)
  then show "asked (assets_request url offset) ''offset'' = Some offset"
    by (simp add: asked_def rp)
  have "url_param (req_url (assets_request url offset)) ''limit'' = Some assets_limit"
    unfolding url_param_def fields by (simp add: read_nat_show_nat)
  then show "asked (assets_request url offset) ''limit'' = Some assets_limit"
    by (simp add: asked_def rp)
qed

lemma offset_catalog_assets:
  assumes "CHR ''?'' \<notin> set url"
  shows "offset_catalog rs cap n (assets_request url offset) =
         Body (Some (take (min assets_limit cap) (drop offset rs))) (Some (int (length rs)))"
  by (simp add: offset_catalog_def assets_request_asks[OF assms])

lemma assets_loop_pages:
  assumes srv: "\<forall>i. i * assets_limit < length rs \<longrightarrow>
                srv i (assets_request url (i * assets_limit)) =
                  Body (Some (take assets_limit (drop (i * assets_limit) rs))) (Some (int (length rs)))"
  shows "m = pages_needed (length rs) assets_limit - k \<Longrightarrow> k * assets_limit < length rs \<Longrightarrow>
         length reqs = k \<Longrightarrow>
         assets_loop srv url (take (k * assets_limit) rs) (k * assets_limit) b reqs =
           Some (Inr rs, reqs @ map (\<lambda>i. assets_request url (i * assets_limit))
                                  [k..<pages_needed (length rs) assets_limit])"
proof (induction m arbitrary: k b reqs)
  case 0
  have "0 < assets_limit" by (simp add: assets_limit_def)
  show ?case
  proof (cases "length rs \<le> Suc k * assets_limit")
    case True
    then have "pages_needed (length rs) assets_limit = Suc k"
      using pages_needed_last[OF \<open>0 < assets_limit\<close> 0(2)] by simp
    with 0 show ?thesis by simp
  next
    case False
    then have "Suc k < pages_needed (length rs) assets_limit"
      using pages_needed_more[OF \<open>0 < assets_limit\<close>] by simp
    with 0 show ?thesis by simp
  qed
next
  case (Suc m)
  have L: "0 < assets_limit" by (simp add: assets_limit_def)
  have resp: "srv (length reqs) (assets_request url (k * assets_limit)) =
        Body (Some (take assets_limit (drop (k * assets_limit) rs))) (Some (int (length rs)))"
    using srv Suc.prems by simp
  show ?case
  proof (cases "length rs \<le> Suc k * assets_limit")
    case True
    then have pn: "pages_needed (length rs) assets_limit = Suc k"
      using pages_needed_last[OF L Suc.prems(2)] by simp
    have tk: "take (k * assets_limit) rs @ take assets_limit (drop (k * assets_limit) rs) = rs"
      using True by (simp only: take_page) simp
    show ?thesis
      by (subst assets_loop.simps) (simp add: resp get_total_def get_results_def tk pn)
  next
    case False
    then have lt: "Suc k * assets_limit < length rs" by simp
    then have more: "Suc k < pages_needed (length rs) assets_limit"
      using pages_needed_more[OF L] by simp
    have len: "length (take assets_limit (drop (k * assets_limit) rs)) = assets_limit"
      using lt by simp
    have IH: "assets_loop srv url (take (Suc k * assets_limit) rs) (Suc k * assets_limit) True
                (reqs @ [assets_request url (k * assets_limit)]) =
              Some (Inr rs, (reqs @ [assets_request url (k * assets_limit)]) @
                      map (\<lambda>i. assets_request url (i * assets_limit))
                        [Suc k..<pages_needed (length rs) assets_limit])"
      using Suc.prems by (intro Suc.IH) (use lt in auto)
    have nd: "\<not> int (length rs) \<le> int (length (take (Suc k * assets_limit) rs))"
      unfolding of_nat_le_iff using lt by simp
    have up: "[k..<pages_needed (length rs) assets_limit] = k # [Suc k..<pages_needed (length rs) assets_limit]"
      using more by (simp add: upt_conv_Cons)
    show ?thesis
      apply (subst assets_loop.simps)
      apply (simp only: resp response.case get_total_def get_results_def option.case take_page nd if_False len)
      apply (simp only: up list.map)
      using IH apply (simp add: add.commute)
      done
  qed
qed

text \<open>
  Claim C3, as the claim states it: with every response successful and a total above the
  page size, a fetch should send \<open>total / limit\<close> rounded up requests. A catalog that
  serves at most 50 records a page answers the asset fetch of 250 records in five pages:
  the fetch follows the pages it receives and sends five requests, where 250 records in
  pages of 100 make three.
\<close>

theorem asset_fetch_short_pages:
  "get_all_collibra_assets_basic_auth (offset_catalog [0..<250::nat] 50) ''https://c'' =
     Some (Inr ([0..<50] @ [50..<100] @ [100..<150] @ [150..<200] @ [200..<250]),
           [assets_request ''https://c'' 0, assets_request ''https://c'' 50,
            assets_request ''https://c'' 100, assets_request ''https://c'' 150,
            assets_request ''https://c'' 200]) \<and>
   assets_limit < length [0..<250::nat] \<and>
   (length [0..<250::nat] + assets_limit - 1) div assets_limit = 3"
proof -
  have url: "CHR ''?'' \<notin> set ''https://c''" by simp
  show ?thesis
    by (simp add: get_all_collibra_assets_basic_auth_def assets_loop.simps
        offset_catalog_assets[OF url] get_total_def get_results_def assets_limit_def
        del: upt_rec_numeral)
qed

text \<open>
  Claim C3, amended. Let the catalog answer each request with the records at the offset
  the request asks for, as many as the limit it asks for (fewer only when fewer are
  left), and let the total exceed the page size. Then the asset fetch sends
  \<open>total / limit\<close> rounded up requests, at the offsets \<open>0\<close>, \<open>limit\<close>, \<open>2 limit\<close> and so on,
  and returns the records of the catalog in their order.
\<close>

theorem asset_fetch_complete:
  assumes url: "CHR ''?'' \<notin> set collibra_url"
    and more: "assets_limit < length rs"
    and cap: "assets_limit \<le> cap"
  shows "get_all_collibra_assets_basic_auth (offset_catalog rs cap) collibra_url =
           Some (Inr rs, map (\<lambda>i. assets_request collibra_url (i * assets_limit))
                           [0..<pages_needed (length rs) assets_limit]) \<and>
         length (map (\<lambda>i. assets_request collibra_url (i * assets_limit))
                   [0..<pages_needed (length rs) assets_limit]) =
           (length rs + assets_limit - 1) div assets_limit"
proof -
  have srv: "\<forall>i. i * assets_limit < length rs \<longrightarrow>
                offset_catalog rs cap i (assets_request collibra_url (i * assets_limit)) =
                  Body (Some (take assets_limit (drop (i * assets_limit) rs))) (Some (int (length rs)))"
    using cap by (simp add: offset_catalog_assets[OF url] min_def)
  have "assets_loop (offset_catalog rs cap) collibra_url (take (0 * assets_limit) rs)
          (0 * assets_limit) False [] =
        Some (Inr rs, [] @ map (\<lambda>i. assets_request collibra_url (i * assets_limit))
                        [0..<pages_needed (length rs) assets_limit])"
    using more
    by (intro assets_loop_pages[where srv = "offset_catalog rs cap" and url = collibra_url
          and rs = rs, OF srv]) auto
  then show ?thesis
    by (simp add: get_all_collibra_assets_basic_auth_def pages_needed_def)
qed

theorem asset_fetch_complete_witness:
  "get_all_collibra_assets_basic_auth (offset_catalog [0..<250::nat] 1000) ''https://c'' =
     Some (Inr [0..<250], [assets_request ''https://c'' 0, assets_request ''https://c'' 100,
                           assets_request ''https://c'' 200])"
proof -
  have url: "CHR ''?'' \<notin> set ''https://c''" by simp
  have more: "assets_limit < length [0..<250::nat]" by (simp add: assets_limit_def)
  have cap: "assets_limit \<le> 1000" by (simp add: assets_limit_def)
  have pn: "pages_needed (length [0..<250::nat]) assets_limit = 3"
    by (simp add: pages_needed_def assets_limit_def)
  have reqs: "map (\<lambda>i. assets_request ''https://c'' (i * assets_limit)) [0..<3] =
              [assets_request ''https://c'' 0, assets_request ''https://c'' 100,
               assets_request ''https://c'' 200]"
    by (simp add: assets_limit_def eval_nat_numeral upt_rec)
  show ?thesis
    using asset_fetch_complete[OF url more cap] unfolding pn reqs by blast
qed




text \<open>
  Claim C5. Every request should carry the caller's filters together with the current
  offset and the limit. \<open>get_paginated_data\<close> writes them into \<open>params\<close> and then sends
  the request without them: the fetch of the relations of \<open>A1\<close> leaves \<open>params\<close> with the
  filter, the offset and the limit, and its one request carries no parameters.
\<close>

theorem paginated_request_carries_no_parameters:
  "get_paginated_data (\<lambda>i req. Body (Some [1::nat]) (Some 1)) ''https://c/rest/2.0/relations''
     [(''sourceId'', VStr ''A1'')] =
   Some ([1],
         [(''sourceId'', VStr ''A1''), (''offset'', VInt 0), (''limit'', VInt 1000)],
         [\<lparr>req_url = ''https://c/rest/2.0/relations'', req_params = None\<rparr>])"
  by (simp add: get_paginated_data_def paginated_loop.simps get_results_def get_total_def
      paginated_params_def paginated_limit_def paginated_request_def)

text \<open>
  The requests of \<open>get_paginated_data\<close> name no offset. A catalog that pages by the
  offset asked, \<open>offset_catalog\<close>, answers each of them with its first page, and the fetch
  of 2500 records ends after three requests with the first thousand records three times.
\<close>

lemma paginated_fetch_repeats_first_page:
  "get_paginated_data (offset_catalog [0..<2500::nat] 1000) ''https://c/rest/2.0/relations''
     [(''sourceId'', VStr ''A1'')] =
   Some ([0..<1000] @ [0..<1000] @ [0..<1000],
         paginated_params [(''sourceId'', VStr ''A1'')] 2000,
         [paginated_request ''https://c/rest/2.0/relations'',
          paginated_request ''https://c/rest/2.0/relations'',
          paginated_request ''https://c/rest/2.0/relations''])"
proof -
  have a: "asked (paginated_request ''https://c/rest/2.0/relations'') ''offset'' = None"
          "asked (paginated_request ''https://c/rest/2.0/relations'') ''limit'' = None"
    by (simp_all add: asked_def paginated_request_def url_param_def query_string_def query_field_def)
  have c: "offset_catalog [0..<2500::nat] 1000 n (paginated_request ''https://c/rest/2.0/relations'') =
           Body (Some [0..<1000]) (Some 2500)" for n
    by (simp add: offset_catalog_def a del: upt_rec_numeral)
  have p: "paginated_params (paginated_params (paginated_params [(''sourceId'', VStr ''A1'')] 0) 1000) 2000 =
           paginated_params [(''sourceId'', VStr ''A1'')] 2000"
    by (simp add: paginated_params_def)
  show ?thesis
    by (simp add: get_paginated_data_def paginated_loop.simps c get_total_def get_results_def p
        del: upt_rec_numeral)
qed

section \<open>The graph client\<close>




lemma filtered_properties_forced: "upn \<in> fst ` set (filtered_properties upn upv properties)"
  by (auto simp: filtered_properties_def Let_def image_iff)

lemma filtered_properties_distinct:
  "distinct (map fst properties) \<Longrightarrow> distinct (map fst (filtered_properties upn upv properties))"
  by (auto simp: filtered_properties_def Let_def distinct_map_filter)

text \<open>
  Claim C6, as the claim states it: an empty required argument should make
  \<open>upsert_vertex\<close> fail before any network call. An empty \<open>unique_property_value\<close> passes
  the check (only \<open>None\<close> is refused), and the lookup and the creation statement are sent.
\<close>

theorem upsert_empty_unique_value_reaches_store:
  "falsy_arg (Some []) \<and>
   sent (snd (upsert_vertex (\<lambda>q s. (Some [], s)) orchestrator_client
           (Some ''Domain'') (Some ''D1'') (Some ''name'') (Some []) [] (initial_world ()))) =
     [find_query ''resourceType'' ''Domain'' ''name'' [],
      create_query ''resourceType'' ''Domain'' ''D1'' [(''name'', VStr [])]]"
  by (simp add: upsert_vertex_def find_vertex_def execute_gremlin_query_def submit_def
      filtered_properties_def Let_def orchestrator_client_def initial_world_def)

text \<open>
  Claim C6, amended. When \<open>label\<close>, \<open>id_value\<close> or \<open>unique_property_name\<close> is \<open>None\<close> or
  empty, or \<open>unique_property_value\<close> is \<open>None\<close>, \<open>upsert_vertex\<close> returns \<open>None\<close> at once:
  it prints the error, submits no statement and leaves the store as it is.
\<close>

theorem upsert_missing_argument_no_call:
  assumes "falsy_arg label \<or> falsy_arg id_value \<or> falsy_arg unique_property_name \<or>
           unique_property_value = None"
  shows "upsert_vertex srv c label id_value unique_property_name unique_property_value properties w =
           (Inr None, print_error ErrUpsertArgs w) \<and>
         sent (print_error ErrUpsertArgs w) = sent w \<and>
         store (print_error ErrUpsertArgs w) = store w"
  using assms by (simp add: upsert_vertex_def print_error_def)

theorem upsert_missing_argument_no_call_witness:
  "upsert_vertex (\<lambda>q s. (Some [], s)) orchestrator_client (Some ''Domain'') (Some ''D1'') (Some ''id'')
      None [] (initial_world ()) =
     (Inr None, print_error ErrUpsertArgs (initial_world ())) \<and>
   sent (print_error ErrUpsertArgs (initial_world ())) = [] \<and>
   upsert_vertex (\<lambda>q s. (Some [], s)) orchestrator_client (Some ''Domain'') (Some []) (Some ''id'')
      (Some ''D1'') [] (initial_world ()) =
     (Inr None, print_error ErrUpsertArgs (initial_world ()))"
  using upsert_missing_argument_no_call[of "Some ''Domain''" "Some ''D1''" "Some ''id''" None
          "\<lambda>q s. (Some [], s)" orchestrator_client "[]" "initial_world ()"]
        upsert_missing_argument_no_call[of "Some ''Domain''" "Some []" "Some ''id''" "Some ''D1''"
          "\<lambda>q s. (Some [], s)" orchestrator_client "[]" "initial_world ()"]
  by (simp add: initial_world_def)



text \<open>
  Claim C9. On a disconnected client every data operation should fail with a
  not-connected condition and return an empty result without raising. \<open>_execute_query\<close>
  checks the handle and prints the not-connected error, and \<open>create_vertex\<close> and
  \<open>create_edge\<close> print that the traversal source is not initialised. \<open>upsert_vertex\<close>
  goes through \<open>_execute_gremlin_query\<close>, which has no such check: it builds the lookup
  and then the creation statement, each call on the unset handle raises inside the \<open>try\<close>,
  and the two are printed as failed queries. It returns \<open>None\<close> and submits nothing, and
  no not-connected condition is reported.
\<close>

theorem disconnected_upsert_reports_failed_queries:
  "upsert_vertex (\<lambda>q s. (Some [RInt 1], s)) new_client (Some ''Domain'') (Some ''D1'')
      (Some ''id'') (Some ''D1'') [] (initial_world ()) =
     (Inr None,
      \<lparr>store = (), sent = [],
       log = [ErrQueryFailed (find_query ''resourceType'' ''Domain'' ''id'' ''D1''),
              ErrQueryFailed (create_query ''resourceType'' ''Domain'' ''D1'' [(''id'', VStr ''D1'')])]\<rparr>) \<and>
   execute_query (\<lambda>q s. (Some [RInt 1], s)) new_client ''g.V()'' (initial_world ()) =
     ([], \<lparr>store = (), sent = [], log = [ErrNotConnected]\<rparr>) \<and>
   run_query (\<lambda>q s. (Some [RInt 1], s)) new_client ''g.V()'' (initial_world ()) =
     ([], \<lparr>store = (), sent = [], log = [ErrNotConnected]\<rparr>) \<and>
   create_vertex (\<lambda>q s. (Some [RInt 1], s)) new_client ''Table'' None (initial_world ()) =
     ([], \<lparr>store = (), sent = [], log = [ErrNoTraversalSource]\<rparr>) \<and>
   create_edge (\<lambda>q s. (Some [RInt 1], s)) new_client (VStr ''A1'') (VStr ''A2'') ''relatedTo'' None
       (initial_world ()) =
     ([], \<lparr>store = (), sent = [], log = [ErrNoTraversalSource]\<rparr>)"
  by (simp add: upsert_vertex_def find_vertex_def execute_gremlin_query_def execute_query_def
      run_query_def create_vertex_def create_edge_def print_error_def new_client_def
      initial_world_def filtered_properties_def Let_def)

section \<open>The upsert engine on the graph store\<close>

subsection \<open>Reading the statements\<close>

lemma escape_Cons:
  "escape_gremlin_string (c # s) = (if c = sq then [bs, sq] else [c]) @ escape_gremlin_string s"
  by (simp add: escape_gremlin_string_def)

lemma escape_Nil: "escape_gremlin_string [] = []"
  by (simp add: escape_gremlin_string_def)

lemma escape_plain: "sq \<notin> set s \<Longrightarrow> escape_gremlin_string s = s"
  by (induction s) (auto simp: escape_Cons escape_Nil)

lemma lex_inside:
  "bs \<notin> set s \<Longrightarrow>
   foldl lex_step (Inside, acc, toks) (escape_gremlin_string s) = (Inside, rev s @ acc, toks)"
  by (induction s arbitrary: acc) (auto simp: escape_Cons escape_Nil)

lemma lex_quoted:
  "bs \<notin> set s \<Longrightarrow>
   foldl lex_step (Outside, acc, toks) (quoted (escape_gremlin_string s)) =
     (Outside, [], TQuoted s # flush_word acc toks)"
  by (simp add: quoted_def lex_inside)

lemma lex_quoted_plain:
  "bs \<notin> set s \<Longrightarrow> sq \<notin> set s \<Longrightarrow>
   foldl lex_step (Outside, acc, toks) (quoted s) =
     (Outside, [], TQuoted s # flush_word acc toks)"
  using lex_quoted[of s acc toks] by (simp add: escape_plain)

lemma lex_word:
  "\<forall>c\<in>set w. word_char c \<Longrightarrow>
   foldl lex_step (Outside, acc, toks) w = (Outside, rev w @ acc, toks)"
  by (induction w arbitrary: acc) (auto simp: word_char_def)

lemma digit_char_word: "d < 10 \<Longrightarrow> word_char (digit_char d)"
proof -
  assume "d < 10"
  then have "d \<in> {0, 1, 2, 3, 4, 5, 6, 7, 8, 9}" by auto
  then show ?thesis by (auto simp: digit_char_def word_char_def)
qed

lemma show_nat_word: "\<forall>c\<in>set (show_nat n). word_char c"
proof (induction n rule: show_nat.induct)
  case (1 n)
  show ?case
  proof (cases "n < 10")
    case True
    then show ?thesis by (subst show_nat.simps) (simp add: digit_char_word)
  next
    case False
    then show ?thesis using 1 by (subst show_nat.simps) (auto simp: digit_char_word)
  qed
qed

lemma py_str_word: "\<forall>s. v \<noteq> VStr s \<Longrightarrow> \<forall>c\<in>set (py_str v). word_char c"
  using show_nat_word by (cases v) (auto simp: show_int_def word_char_def)

lemma py_str_nonempty: "\<forall>s. v \<noteq> VStr s \<Longrightarrow> py_str v \<noteq> []"
  by (cases v) (auto simp: show_int_def show_nat.simps[of "nat _"])

lemma lex_clause:
  assumes "clean_entry kv"
  shows "foldl lex_step (Outside, [], toks) (upsert_property kv) =
         (Outside, [], rev (clause_tokens kv) @ toks)"
proof (cases kv)
  case (Pair k v)
  show ?thesis
  proof (cases "\<exists>s. v = VStr s")
    case True
    then obtain s where v: "v = VStr s" by blast
    have "bs \<notin> set k" "bs \<notin> set s"
      using assms by (simp_all add: clean_entry_def clean_def Pair v)
    then show ?thesis
      by (simp add: Pair v upsert_property_def clause_tokens_def value_token_def lex_quoted
          flush_word_def)
  next
    case False
    then have nv: "\<forall>s. v \<noteq> VStr s" by blast
    have k: "bs \<notin> set k" using assms by (simp add: clean_entry_def clean_def Pair)
    have up: "upsert_property (k, v) =
        ''.property('' @ quoted (escape_gremlin_string k) @ '', '' @ py_str v @ '')''"
      using nv by (cases v) (simp_all add: upsert_property_def)
    have vt: "value_token v = TWord (py_str v)"
      using nv by (cases v) (simp_all add: value_token_def)
    show ?thesis
      using py_str_nonempty[OF nv]
      by (simp add: Pair up vt clause_tokens_def lex_quoted[OF k] lex_word[OF py_str_word[OF nv]]
          flush_word_def)
  qed
qed

lemma lex_clauses:
  "\<forall>kv\<in>set kvs. clean_entry kv \<Longrightarrow>
   foldl lex_step (Outside, [], toks) (concat (map upsert_property kvs)) =
   (Outside, [], rev (concat (map clause_tokens kvs)) @ toks)"
  by (induction kvs arbitrary: toks) (simp_all add: lex_clause)

lemma parse_clause:
  "foldl parse_step (ss, PIdle) (clause_tokens kv) = (clause_step kv # ss, PIdle)"
  by (cases "snd kv") (simp_all add: clause_tokens_def clause_step_def value_token_def value_arg_def)

lemma parse_clauses:
  "foldl parse_step (ss, PIdle) (concat (map clause_tokens kvs)) =
   (rev (map clause_step kvs) @ ss, PIdle)"
  by (induction kvs arbitrary: ss) (simp_all add: parse_clause)

lemma parse_find_query:
  assumes "clean l" "clean u" "clean v" "plain pk"
  shows "parse_statement (find_query pk l u v) =
         Some [Step ''V'' [], Step ''hasLabel'' [AQuoted l], Step ''has'' [AQuoted pk, AQuoted l],
               Step ''has'' [AQuoted u, AQuoted v], Step ''limit'' [ABare ''1'']]"
proof -
  have c: "bs \<notin> set l" "bs \<notin> set u" "bs \<notin> set v" "bs \<notin> set pk" "sq \<notin> set pk"
    using assms by (simp_all add: clean_def plain_def)
  have "tokens (find_query pk l u v) =
        Some [TWord ''g'', TDot, TWord ''V'', TOpen, TClose,
              TDot, TWord ''hasLabel'', TOpen, TQuoted l, TClose,
              TDot, TWord ''has'', TOpen, TQuoted pk, TComma, TQuoted l, TClose,
              TDot, TWord ''has'', TOpen, TQuoted u, TComma, TQuoted v, TClose,
              TDot, TWord ''limit'', TOpen, TWord ''1'', TClose]"
    by (simp add: tokens_def find_query_def lex_quoted[OF c(1)] lex_quoted[OF c(2)]
        lex_quoted[OF c(3)] lex_quoted_plain[OF c(4) c(5)] flush_word_def)
  then show ?thesis
    by (simp add: parse_statement_def parse_steps_def)
qed

lemma parse_create_query:
  assumes "clean l" "clean i" "plain pk" "\<forall>kv\<in>set kvs. clean_entry kv"
  shows "parse_statement (create_query pk l i kvs) =
         Some (Step ''addV'' [AQuoted l] # Step ''property'' [AQuoted ''id'', AQuoted i] #
               Step ''property'' [AQuoted pk, AQuoted l] #
               map clause_step (filter (\<lambda>(k, v). k \<noteq> pk \<and> k \<noteq> ''id'') kvs))"
proof -
  let ?kept = "filter (\<lambda>(k, v). k \<noteq> pk \<and> k \<noteq> ''id'') kvs"
  have c: "bs \<notin> set l" "bs \<notin> set i" "bs \<notin> set pk" "sq \<notin> set pk"
    using assms by (simp_all add: clean_def plain_def)
  have k: "\<forall>kv\<in>set ?kept. clean_entry kv" using assms(4) by auto
  have "tokens (create_query pk l i kvs) =
        Some ([TWord ''g'', TDot, TWord ''addV'', TOpen, TQuoted l, TClose,
               TDot, TWord ''property'', TOpen, TQuoted ''id'', TComma, TQuoted i, TClose,
               TDot, TWord ''property'', TOpen, TQuoted pk, TComma, TQuoted l, TClose] @
              concat (map clause_tokens ?kept))"
    by (simp add: lex_clauses[OF k] tokens_def create_query_def create_loop_eq lex_quoted[OF c(1)] lex_quoted[OF c(2)]
        lex_quoted_plain[OF c(3) c(4)] lex_quoted_plain[of "''id''"] flush_word_def)
  then show ?thesis
    by (simp add: parse_statement_def parse_steps_def parse_clauses)
qed

lemma parse_update_query:
  assumes "clean l" "clean i" "plain pk" "\<forall>kv\<in>set kvs. clean_entry kv"
  shows "parse_statement (update_query pk i l u kvs) =
         Some (Step ''V'' [AQuoted i] # Step ''has'' [AQuoted pk, AQuoted l] #
               map clause_step (filter (\<lambda>(k, v). k \<noteq> u \<and> k \<noteq> pk \<and> k \<noteq> ''id'') kvs))"
proof -
  let ?kept = "filter (\<lambda>(k, v). k \<noteq> u \<and> k \<noteq> pk \<and> k \<noteq> ''id'') kvs"
  have c: "bs \<notin> set l" "bs \<notin> set i" "bs \<notin> set pk" "sq \<notin> set pk"
    using assms by (simp_all add: clean_def plain_def)
  have k: "\<forall>kv\<in>set ?kept. clean_entry kv" using assms(4) by auto
  have "tokens (update_query pk i l u kvs) =
        Some ([TWord ''g'', TDot, TWord ''V'', TOpen, TQuoted i, TClose,
               TDot, TWord ''has'', TOpen, TQuoted pk, TComma, TQuoted l, TClose] @
              concat (map clause_tokens ?kept))"
    by (simp add: lex_clauses[OF k] tokens_def update_query_def update_loop_eq lex_quoted[OF c(1)] lex_quoted[OF c(2)]
        lex_quoted_plain[OF c(3) c(4)] flush_word_def)
  then show ?thesis
    by (simp add: parse_statement_def parse_steps_def parse_clauses)
qed

subsection \<open>Running the statements\<close>

lemma limit_marked_snd: "map snd (limit_marked n st) = map snd st"
  by (induction n st rule: limit_marked.induct) (auto split: nat.splits)

lemma limit_marked_selected:
  "map snd (filter fst (limit_marked n st)) = take n (map snd (filter fst st))"
  by (induction n st rule: limit_marked.induct) (auto split: nat.splits)

lemma selected_map: "map snd (filter fst (map (\<lambda>x. (P x, x)) vs)) = filter P vs"
  by (induction vs) auto

lemma rows_selected:
  "map (\<lambda>(b, x). vertex_row x) (filter fst st) = map vertex_row (map snd (filter fst st))"
  by (induction st) auto

lemma read_nat_1: "read_nat ''1'' = Some 1"
  by (simp add: read_nat_def digit_value_def)

lemma run_find:
  "run_statement [Step ''V'' [], Step ''hasLabel'' [AQuoted l], Step ''has'' [AQuoted pk, AQuoted l],
                  Step ''has'' [AQuoted u, AQuoted v], Step ''limit'' [ABare ''1'']] vs =
   Some (map vertex_row (take 1 (filter (looked_up pk l u v) vs)), vs)"
proof -
  have lu: "(\<lambda>x. v_label x = l \<and> get_prop x pk = Some (AQuoted l) \<and>
                 get_prop x u = Some (AQuoted v)) = looked_up pk l u v"
    by (auto simp: looked_up_def)
  show ?thesis
    by (simp add: read_nat_1 rows_selected limit_marked_snd limit_marked_selected selected_map
        comp_def lu del: One_nat_def)
qed

lemma run_props:
  "run_steps (map clause_step kvs @ rest) st =
   run_steps rest (map (\<lambda>(b, x). (b, if b then apply_props kvs x else x)) st)"
proof (induction kvs arbitrary: st)
  case Nil
  have "map (\<lambda>(b, x). (b, if b then apply_props [] x else x)) st = st"
    by (induction st) (auto simp: apply_props_def)
  then show ?case by simp
next
  case (Cons kv kvs)
  have eq: "map (\<lambda>(b, x). (b, if b then apply_props kvs x else x))
          (map (\<lambda>(b, x). (b, if b then set_prop (fst kv) (value_arg (snd kv)) x else x)) st) =
        map (\<lambda>(b, x). (b, if b then apply_props (kv # kvs) x else x)) st"
    by (induction st) (auto simp: apply_props_def)
  have "run_steps (map clause_step (kv # kvs) @ rest) st =
        run_steps (map clause_step kvs @ rest)
          (map (\<lambda>(b, x). (b, if b then set_prop (fst kv) (value_arg (snd kv)) x else x)) st)"
    by (simp add: clause_step_def[of kv])
  also have "\<dots> = run_steps rest (map (\<lambda>(b, x). (b, if b then apply_props kvs x else x))
          (map (\<lambda>(b, x). (b, if b then set_prop (fst kv) (value_arg (snd kv)) x else x)) st))"
    by (rule Cons.IH)
  finally show ?case by (simp only: eq)
qed

lemma run_create:
  "run_statement (Step ''addV'' [AQuoted l] # Step ''property'' [AQuoted ''id'', AQuoted i] #
                  Step ''property'' [AQuoted pk, AQuoted l] #
                  map clause_step (filter (\<lambda>(k, v). k \<noteq> pk \<and> k \<noteq> ''id'') kvs)) vs =
   Some ([vertex_row (new_vertex pk l i kvs)], vs @ [new_vertex pk l i kvs])"
  using run_props[where rest = "[]"]
  by (simp add: new_vertex_def comp_def)

lemma run_update:
  "\<exists>rows. run_statement (Step ''V'' [AQuoted i] # Step ''has'' [AQuoted pk, AQuoted l] #
                  map clause_step kvs) vs =
   Some (rows, map (\<lambda>x. if get_prop x ''id'' = Some (AQuoted i) \<and> get_prop x pk = Some (AQuoted l)
                          then apply_props kvs x else x) vs)"
  using run_props[where rest = "[]"]
  by (simp add: comp_def)

lemma store_find:
  assumes "clean l" "clean u" "clean v" "plain pk"
  shows "gremlin_store (find_query pk l u v) vs =
         (Some (map vertex_row (take 1 (filter (looked_up pk l u v) vs))), vs)"
  by (simp add: gremlin_store_def parse_find_query[OF assms] run_find del: run_statement.simps One_nat_def)

lemma store_create:
  assumes "clean l" "clean i" "plain pk" "\<forall>kv\<in>set kvs. clean_entry kv"
  shows "gremlin_store (create_query pk l i kvs) vs =
         (Some [vertex_row (new_vertex pk l i kvs)], vs @ [new_vertex pk l i kvs])"
  by (simp add: gremlin_store_def parse_create_query[OF assms] run_create del: run_statement.simps)

lemma store_update:
  assumes "clean l" "clean i" "plain pk" "\<forall>kv\<in>set kvs. clean_entry kv"
  shows "\<exists>rows. gremlin_store (update_query pk i l u kvs) vs =
         (Some rows, map (\<lambda>x. if get_prop x ''id'' = Some (AQuoted i) \<and> get_prop x pk = Some (AQuoted l)
                              then apply_props (filter (\<lambda>(k, v). k \<noteq> u \<and> k \<noteq> pk \<and> k \<noteq> ''id'') kvs) x
                              else x) vs)"
proof -
  obtain rows where "run_statement (Step ''V'' [AQuoted i] # Step ''has'' [AQuoted pk, AQuoted l] #
                  map clause_step (filter (\<lambda>(k, v). k \<noteq> u \<and> k \<noteq> pk \<and> k \<noteq> ''id'') kvs)) vs =
   Some (rows, map (\<lambda>x. if get_prop x ''id'' = Some (AQuoted i) \<and> get_prop x pk = Some (AQuoted l)
                          then apply_props (filter (\<lambda>(k, v). k \<noteq> u \<and> k \<noteq> pk \<and> k \<noteq> ''id'') kvs) x else x) vs)"
    using run_update by blast
  then show ?thesis
    by (simp add: gremlin_store_def parse_update_query[OF assms] del: run_statement.simps)
qed

subsection \<open>Properties of vertices\<close>

lemma map_of_put: "map_of (put k a ps) = (map_of ps)(k \<mapsto> a)"
  by (induction ps) (auto simp: fun_eq_iff)

lemma get_prop_set_prop:
  "get_prop (set_prop k a x) k' = (if k' = k then Some a else get_prop x k')"
  by (simp add: get_prop_def set_prop_def map_of_put)

lemma v_label_set_prop: "v_label (set_prop k a x) = v_label x"
  by (simp add: set_prop_def)

lemma apply_props_Cons:
  "apply_props (kv # kvs) x = apply_props kvs (set_prop (fst kv) (value_arg (snd kv)) x)"
  by (simp add: apply_props_def)

lemma v_label_apply_props: "v_label (apply_props kvs x) = v_label x"
  by (induction kvs arbitrary: x) (simp_all add: apply_props_Cons v_label_set_prop, simp add: apply_props_def)

lemma get_prop_apply_props_other:
  "k \<notin> fst ` set kvs \<Longrightarrow> get_prop (apply_props kvs x) k = get_prop x k"
proof (induction kvs arbitrary: x)
  case Nil
  then show ?case by (simp add: apply_props_def)
next
  case (Cons kv kvs)
  then show ?case by (simp add: apply_props_Cons get_prop_set_prop)
qed

lemma get_prop_apply_props_in:
  "distinct (map fst kvs) \<Longrightarrow> (k, v) \<in> set kvs \<Longrightarrow>
   get_prop (apply_props kvs x) k = Some (value_arg v)"
proof (induction kvs arbitrary: x)
  case Nil
  then show ?case by simp
next
  case (Cons kv kvs)
  show ?case
  proof (cases "kv = (k, v)")
    case True
    then have "k \<notin> fst ` set kvs" using Cons.prems(1) by auto
    then show ?thesis
      by (simp add: apply_props_Cons get_prop_apply_props_other get_prop_set_prop True)
  next
    case False
    then have "(k, v) \<in> set kvs" using Cons.prems(2) by auto
    moreover have "distinct (map fst kvs)" using Cons.prems(1) by simp
    ultimately show ?thesis by (simp add: apply_props_Cons Cons.IH)
  qed
qed

lemma dict_get_vertex_row:
  "vertex_row x = RDict d \<Longrightarrow>
   dict_get d ''id'' = (case get_prop x ''id'' of None \<Rightarrow> VNone | Some a \<Rightarrow> arg_value a)"
  by (auto simp: vertex_row_def dict_get_def get_prop_def map_of_map split: option.splits)

lemma vertex_row_truthy: "row_truthy (vertex_row x)"
  by (simp add: vertex_row_def)

subsection \<open>One upsert on the store\<close>

lemma filtered_properties_clean:
  assumes "\<forall>kv\<in>set props. clean_entry kv" "clean u" "clean v"
  shows "\<forall>kv\<in>set (filtered_properties u v props). clean_entry kv"
  using assms by (auto simp: filtered_properties_def Let_def clean_entry_def)

lemma filtered_properties_unique_value:
  assumes "distinct (map fst props)"
    and "u \<noteq> ''id'' \<and> u \<noteq> ''label'' \<longrightarrow> (\<forall>v'. (u, v') \<in> set props \<longrightarrow> v' = VStr v)"
  shows "(u, VStr v) \<in> set (filtered_properties u v props)"
proof (cases "u \<in> fst ` {kv \<in> set props. fst kv \<noteq> ''id'' \<and> fst kv \<noteq> ''label''}")
  case True
  then obtain v' where "(u, v') \<in> set props" "u \<noteq> ''id''" "u \<noteq> ''label''" by auto
  then have "(u, VStr v) \<in> set props" using assms(2) by auto
  then show ?thesis using \<open>u \<noteq> ''id''\<close> \<open>u \<noteq> ''label''\<close>
    by (auto simp: filtered_properties_def Let_def)
next
  case False
  then have "u \<notin> fst ` set (filter (\<lambda>(k, v). k \<noteq> ''id'' \<and> k \<noteq> ''label'') props)"
    by (auto simp: image_iff)
  then show ?thesis by (simp add: filtered_properties_def Let_def)
qed

lemma find_on_store:
  assumes "gremlin_client c" "clean l" "clean u" "clean v" "plain (partition_key_field c)"
  shows "find_vertex gremlin_store c l u v w =
         (first_result (Some (map vertex_row (take 1 (filter (looked_up (partition_key_field c) l u v) (store w))))),
          w\<lparr>sent := sent w @ [find_query (partition_key_field c) l u v]\<rparr>)"
  using assms(1)
  by (simp add: find_vertex_def execute_gremlin_query_def submit_def
      store_find[OF assms(2-5)] del: One_nat_def)

lemma upsert_creates:
  assumes conn: "gremlin_client c" and pk: "plain (partition_key_field c)" and u: "clean u"
    and valid: "c_label k \<noteq> []" "c_id k \<noteq> []" "u \<noteq> []"
    and ok: "call_ok u k"
    and none: "filter (looked_up (partition_key_field c) (c_label k) u (c_value k)) (store w) = []"
  shows "upsert_call gremlin_store c u k w =
         (Inr (Some (vertex_row (new_vertex (partition_key_field c) (c_label k) (c_id k)
                       (filtered_properties u (c_value k) (c_props k))))),
          w\<lparr>store := store w @ [new_vertex (partition_key_field c) (c_label k) (c_id k)
                                 (filtered_properties u (c_value k) (c_props k))],
            sent := sent w @ [find_query (partition_key_field c) (c_label k) u (c_value k),
                              create_query (partition_key_field c) (c_label k) (c_id k)
                                (filtered_properties u (c_value k) (c_props k))]\<rparr>)"
proof -
  have cl: "clean (c_label k)" "clean (c_id k)" "clean (c_value k)"
    "\<forall>kv\<in>set (c_props k). clean_entry kv"
    using ok by (simp_all add: call_ok_def)
  have fc: "\<forall>kv\<in>set (filtered_properties u (c_value k) (c_props k)). clean_entry kv"
    by (rule filtered_properties_clean[OF cl(4) u cl(3)])
  have fv: "find_vertex gremlin_store c (c_label k) u (c_value k) w =
         (None, w\<lparr>sent := sent w @ [find_query (partition_key_field c) (c_label k) u (c_value k)]\<rparr>)"
    by (simp add: find_on_store[OF conn cl(1) u cl(3) pk] none)
  show ?thesis
    using valid conn
    by (simp add: upsert_call_def upsert_vertex_def fv Let_def execute_gremlin_query_def submit_def
        store_create[OF cl(1) cl(2) pk fc])
qed

lemma upsert_updates:
  assumes conn: "gremlin_client c" and pk: "plain (partition_key_field c)" and u: "clean u"
    and valid: "c_label k \<noteq> []" "c_id k \<noteq> []" "u \<noteq> []"
    and ok: "call_ok u k"
    and some: "filter (looked_up (partition_key_field c) (c_label k) u (c_value k)) (store w) = x # xs"
    and vid: "get_prop x ''id'' = Some (AQuoted i)" "i \<noteq> []" "clean i"
  shows "\<exists>r. upsert_call gremlin_store c u k w =
         (Inr r,
          w\<lparr>store := map (\<lambda>y. if get_prop y ''id'' = Some (AQuoted i) \<and>
                                  get_prop y (partition_key_field c) = Some (AQuoted (c_label k))
                               then apply_props
                                      (filter (\<lambda>(key, v). key \<noteq> u \<and> key \<noteq> partition_key_field c \<and> key \<noteq> ''id'')
                                         (filtered_properties u (c_value k) (c_props k))) y
                               else y) (store w),
            sent := sent w @ [find_query (partition_key_field c) (c_label k) u (c_value k),
                              update_query (partition_key_field c) i (c_label k) u
                                (filtered_properties u (c_value k) (c_props k))]\<rparr>)"
proof -
  have cl: "clean (c_label k)" "clean (c_id k)" "clean (c_value k)"
    "\<forall>kv\<in>set (c_props k). clean_entry kv"
    using ok by (simp_all add: call_ok_def)
  have fc: "\<forall>kv\<in>set (filtered_properties u (c_value k) (c_props k)). clean_entry kv"
    by (rule filtered_properties_clean[OF cl(4) u cl(3)])
  let ?w1 = "w\<lparr>sent := sent w @ [find_query (partition_key_field c) (c_label k) u (c_value k)]\<rparr>"
  have fv: "find_vertex gremlin_store c (c_label k) u (c_value k) w = (Some (vertex_row x), ?w1)"
    by (simp add: find_on_store[OF conn cl(1) u cl(3) pk] some)
  obtain d where d: "vertex_row x = RDict d" by (simp add: vertex_row_def)
  have id: "dict_get d ''id'' = VStr i"
    using dict_get_vertex_row[OF d] vid(1) by simp
  have ne: "d \<noteq> []" using d by (auto simp: vertex_row_def)
  obtain rows where st: "gremlin_store (update_query (partition_key_field c) i (c_label k) u
                 (filtered_properties u (c_value k) (c_props k))) (store ?w1) =
         (Some rows, map (\<lambda>y. if get_prop y ''id'' = Some (AQuoted i) \<and>
                                  get_prop y (partition_key_field c) = Some (AQuoted (c_label k))
                               then apply_props
                                      (filter (\<lambda>(key, v). key \<noteq> u \<and> key \<noteq> partition_key_field c \<and> key \<noteq> ''id'')
                                         (filtered_properties u (c_value k) (c_props k))) y
                               else y) (store ?w1))"
    using store_update[OF cl(1) vid(3) pk fc] by blast
  have st': "gremlin_store (update_query (partition_key_field c) i (c_label k) u
                 (filtered_properties u (c_value k) (c_props k))) (store w) =
         (Some rows, map (\<lambda>y. if get_prop y ''id'' = Some (AQuoted i) \<and>
                                  get_prop y (partition_key_field c) = Some (AQuoted (c_label k))
                               then apply_props
                                      (filter (\<lambda>(key, v). key \<noteq> u \<and> key \<noteq> partition_key_field c \<and> key \<noteq> ''id'')
                                         (filtered_properties u (c_value k) (c_props k))) y
                               else y) (store w))"
    using st by simp
  show ?thesis
    using valid conn vid(2) ne
    by (simp add: upsert_call_def upsert_vertex_def fv Let_def d id execute_gremlin_query_def
        submit_def st')
qed

subsection \<open>The invariant\<close>

lemma looked_up_vertices_with:
  assumes "store_ok pk u vs"
  shows "filter (looked_up pk l u v) vs = vertices_with l u (AQuoted v) vs"
  unfolding vertices_with_def
  by (rule filter_cong) (use assms in \<open>auto simp: store_ok_def looked_up_def\<close>)

lemma new_vertex_label: "v_label (new_vertex pk l i kvs) = l"
  by (simp add: new_vertex_def v_label_apply_props v_label_set_prop)

lemma new_vertex_pk: "get_prop (new_vertex pk l i kvs) pk = Some (AQuoted l)"
proof -
  have "pk \<notin> fst ` set (filter (\<lambda>(k, v). k \<noteq> pk \<and> k \<noteq> ''id'') kvs)" by auto
  then show ?thesis
    by (simp add: new_vertex_def get_prop_apply_props_other get_prop_set_prop)
qed

lemma new_vertex_id:
  "get_prop (new_vertex pk l i kvs) ''id'' = Some (AQuoted (if pk = ''id'' then l else i))"
proof -
  have "''id'' \<notin> fst ` set (filter (\<lambda>(k, v). k \<noteq> pk \<and> k \<noteq> ''id'') kvs)" by auto
  then show ?thesis
    by (simp add: new_vertex_def get_prop_apply_props_other get_prop_set_prop)
qed

lemma new_vertex_unique:
  assumes "u \<noteq> pk" "call_ok u k"
  shows "get_prop (new_vertex pk (c_label k) (c_id k) (filtered_properties u (c_value k) (c_props k))) u =
         Some (AQuoted (c_value k))"
proof (cases "u = ''id''")
  case True
  then have "c_id k = c_value k" "pk \<noteq> ''id''" using assms by (auto simp: call_ok_def)
  then show ?thesis using True by (simp add: new_vertex_id)
next
  case False
  let ?filt = "filtered_properties u (c_value k) (c_props k)"
  let ?kept = "filter (\<lambda>(k, v). k \<noteq> pk \<and> k \<noteq> ''id'') ?filt"
  have d: "distinct (map fst (c_props k))" using assms(2) by (simp add: call_ok_def)
  have "(u, VStr (c_value k)) \<in> set ?filt"
    using assms(2) by (intro filtered_properties_unique_value) (auto simp: call_ok_def)
  then have mem: "(u, VStr (c_value k)) \<in> set ?kept" using False assms(1) by simp
  have "distinct (map fst ?kept)"
    using filtered_properties_distinct[OF d] by (simp add: distinct_map_filter)
  from get_prop_apply_props_in[OF this mem] show ?thesis
    by (simp add: new_vertex_def value_arg_def)
qed

lemma vertices_with_append:
  "vertices_with l u a (vs @ [x]) =
     vertices_with l u a vs @ (if v_label x = l \<and> get_prop x u = Some a then [x] else [])"
  by (simp add: vertices_with_def)

lemma store_ok_append:
  assumes ok: "store_ok pk u vs"
    and none: "vertices_with (v_label x) u a vs = []"
    and x: "get_prop x pk = Some (AQuoted (v_label x))" "get_prop x u = Some a"
      "i \<noteq> []" "clean i" "get_prop x ''id'' = Some (AQuoted i)"
  shows "store_ok pk u (vs @ [x])"
proof -
  have "length (vertices_with l' u a' (vs @ [x])) \<le> 1" for l' a'
  proof (cases "v_label x = l' \<and> get_prop x u = Some a'")
    case True
    then have "vertices_with l' u a' vs = []" using none x(2) by auto
    then show ?thesis by (simp add: vertices_with_append)
  next
    case False
    then have "vertices_with l' u a' (vs @ [x]) = vertices_with l' u a' vs"
      by (auto simp: vertices_with_append)
    then show ?thesis
      using ok by (simp add: store_ok_def unique_property_def)
  qed
  then show ?thesis
    using ok x by (auto simp: store_ok_def unique_property_def)
qed

lemma store_ok_map:
  assumes ok: "store_ok pk u vs"
    and f: "\<And>y. v_label (f y) = v_label y" "\<And>y. get_prop (f y) pk = get_prop y pk"
      "\<And>y. get_prop (f y) u = get_prop y u" "\<And>y. get_prop (f y) ''id'' = get_prop y ''id''"
  shows "store_ok pk u (map f vs)" and "vertices_with l u a (map f vs) = map f (vertices_with l u a vs)"
proof -
  show vw: "vertices_with l u a (map f vs) = map f (vertices_with l u a vs)" for l a
    by (simp add: vertices_with_def filter_map comp_def f)
  show "store_ok pk u (map f vs)"
    using ok by (auto simp: store_ok_def unique_property_def vw f)
qed

lemma upsert_store_disconnected:
  "\<not> gremlin_client c \<Longrightarrow> store (snd (upsert_call srv c u k w)) = store w"
  by (simp add: upsert_call_def upsert_vertex_def find_vertex_def execute_gremlin_query_def
      print_error_def Let_def)

lemma upsert_store_invalid:
  "c_label k = [] \<or> c_id k = [] \<or> u = [] \<Longrightarrow> store (snd (upsert_call srv c u k w)) = store w"
  by (auto simp: upsert_call_def upsert_vertex_def print_error_def)

lemma update_keeps:
  fixes pk u :: string and kvs :: pydict
  defines "f \<equiv> \<lambda>i l y. if get_prop y ''id'' = Some (AQuoted i) \<and> get_prop y pk = Some (AQuoted l)
                 then apply_props (filter (\<lambda>(key, v). key \<noteq> u \<and> key \<noteq> pk \<and> key \<noteq> ''id'') kvs) y
                 else y"
  shows "v_label (f i l y) = v_label y" "get_prop (f i l y) pk = get_prop y pk"
    "get_prop (f i l y) u = get_prop y u" "get_prop (f i l y) ''id'' = get_prop y ''id''"
proof -
  let ?kept = "filter (\<lambda>(key, v). key \<noteq> u \<and> key \<noteq> pk \<and> key \<noteq> ''id'') kvs"
  have "pk \<notin> fst ` set ?kept" "u \<notin> fst ` set ?kept" "''id'' \<notin> fst ` set ?kept" by auto
  then show "v_label (f i l y) = v_label y" "get_prop (f i l y) pk = get_prop y pk"
    "get_prop (f i l y) u = get_prop y u" "get_prop (f i l y) ''id'' = get_prop y ''id''"
    by (simp_all add: f_def v_label_apply_props get_prop_apply_props_other)
qed

lemma upsert_call_store_ok:
  assumes pk: "plain (partition_key_field c)" and u: "clean u" "u \<noteq> partition_key_field c"
    and ok: "store_ok (partition_key_field c) u (store w)"
    and call: "call_ok u k"
  shows "store_ok (partition_key_field c) u (store (snd (upsert_call gremlin_store c u k w)))"
proof (cases "gremlin_client c \<and> c_label k \<noteq> [] \<and> c_id k \<noteq> [] \<and> u \<noteq> []")
  case False
  then have "store (snd (upsert_call gremlin_store c u k w)) = store w"
    using upsert_store_disconnected upsert_store_invalid by blast
  then show ?thesis using ok by simp
next
  case True
  let ?pk = "partition_key_field c"
  let ?filt = "filtered_properties u (c_value k) (c_props k)"
  show ?thesis
  proof (cases "filter (looked_up ?pk (c_label k) u (c_value k)) (store w)")
    case Nil
    let ?nv = "new_vertex ?pk (c_label k) (c_id k) ?filt"
    have st: "store (snd (upsert_call gremlin_store c u k w)) = store w @ [?nv]"
      using upsert_creates[OF _ pk u(1) _ _ _ call Nil] True by simp
    have none: "vertices_with (v_label ?nv) u (AQuoted (c_value k)) (store w) = []"
      using Nil looked_up_vertices_with[OF ok] by (simp add: new_vertex_label)
    have idok: "(if ?pk = ''id'' then c_label k else c_id k) \<noteq> []"
      "clean (if ?pk = ''id'' then c_label k else c_id k)"
      using True call by (auto simp: call_ok_def)
    show ?thesis
      unfolding st
      by (rule store_ok_append[OF ok none _ new_vertex_unique[OF u(2) call] idok new_vertex_id])
         (simp add: new_vertex_pk new_vertex_label)
  next
    case (Cons x xs)
    then have "x \<in> set (store w)"
      by (metis filter_is_subset list.set_intros(1) subsetD)
    then obtain i where i: "i \<noteq> []" "clean i" "get_prop x ''id'' = Some (AQuoted i)"
      using ok by (auto simp: store_ok_def)
    obtain r where "upsert_call gremlin_store c u k w =
         (Inr r,
          w\<lparr>store := map (\<lambda>y. if get_prop y ''id'' = Some (AQuoted i) \<and>
                                  get_prop y ?pk = Some (AQuoted (c_label k))
                               then apply_props
                                      (filter (\<lambda>(key, v). key \<noteq> u \<and> key \<noteq> ?pk \<and> key \<noteq> ''id'') ?filt) y
                               else y) (store w),
            sent := sent w @ [find_query ?pk (c_label k) u (c_value k),
                              update_query ?pk i (c_label k) u ?filt]\<rparr>)"
      using upsert_updates[OF _ pk u(1) _ _ _ call Cons i(3) i(1) i(2)] True by blast
    then have st: "store (snd (upsert_call gremlin_store c u k w)) =
        map (\<lambda>y. if get_prop y ''id'' = Some (AQuoted i) \<and>
                                  get_prop y ?pk = Some (AQuoted (c_label k))
                               then apply_props
                                      (filter (\<lambda>(key, v). key \<noteq> u \<and> key \<noteq> ?pk \<and> key \<noteq> ''id'') ?filt) y
                               else y) (store w)"
      by simp
    show ?thesis
      unfolding st by (rule store_ok_map(1)[OF ok]) (rule update_keeps)+
  qed
qed

lemma upsert_all_store_ok:
  assumes pk: "plain (partition_key_field c)" and u: "clean u" "u \<noteq> partition_key_field c"
  shows "store_ok (partition_key_field c) u (store w) \<Longrightarrow> \<forall>k\<in>set calls. call_ok u k \<Longrightarrow>
         store_ok (partition_key_field c) u (store (upsert_all gremlin_store c u calls w))"
proof (induction calls arbitrary: w)
  case Nil
  then show ?case by simp
next
  case (Cons k ks)
  have ok1: "store_ok (partition_key_field c) u (store (snd (upsert_call gremlin_store c u k w)))"
    using upsert_call_store_ok[OF pk u Cons.prems(1)] Cons.prems(2) by simp
  show ?case
  proof (cases "upsert_call gremlin_store c u k w")
    case (Pair r w')
    then show ?thesis
      using ok1 Cons.IH[of w'] Cons.prems(2) by (cases r) auto
  qed
qed

lemma upsert_call_existing:
  assumes conn: "gremlin_client c" and pk: "plain (partition_key_field c)"
    and u: "clean u" "u \<noteq> partition_key_field c"
    and ok: "store_ok (partition_key_field c) u (store w)"
    and call: "call_ok u k" and valid: "c_label k \<noteq> []" "c_id k \<noteq> []" "u \<noteq> []"
    and some: "vertices_with (c_label k) u (AQuoted (c_value k)) (store w) \<noteq> []"
  shows "\<exists>i. sent (snd (upsert_call gremlin_store c u k w)) =
               sent w @ [find_query (partition_key_field c) (c_label k) u (c_value k),
                         update_query (partition_key_field c) i (c_label k) u
                           (filtered_properties u (c_value k) (c_props k))]"
    and "length (store (snd (upsert_call gremlin_store c u k w))) = length (store w)"
    and "length (vertices_with (c_label k) u (AQuoted (c_value k))
                   (store (snd (upsert_call gremlin_store c u k w)))) =
         length (vertices_with (c_label k) u (AQuoted (c_value k)) (store w))"
proof -
  let ?pk = "partition_key_field c"
  let ?filt = "filtered_properties u (c_value k) (c_props k)"
  obtain x xs where Cons: "filter (looked_up ?pk (c_label k) u (c_value k)) (store w) = x # xs"
    using some looked_up_vertices_with[OF ok, of "c_label k" "c_value k"]
    by (cases "vertices_with (c_label k) u (AQuoted (c_value k)) (store w)") auto
  then have "x \<in> set (store w)"
    by (metis filter_is_subset list.set_intros(1) subsetD)
  then obtain i where i: "i \<noteq> []" "clean i" "get_prop x ''id'' = Some (AQuoted i)"
    using ok by (auto simp: store_ok_def)
  let ?f = "\<lambda>y. if get_prop y ''id'' = Some (AQuoted i) \<and> get_prop y ?pk = Some (AQuoted (c_label k))
                 then apply_props (filter (\<lambda>(key, v). key \<noteq> u \<and> key \<noteq> ?pk \<and> key \<noteq> ''id'') ?filt) y
                 else y"
  obtain r where up: "upsert_call gremlin_store c u k w =
         (Inr r, w\<lparr>store := map ?f (store w),
            sent := sent w @ [find_query ?pk (c_label k) u (c_value k),
                              update_query ?pk i (c_label k) u ?filt]\<rparr>)"
    using upsert_updates[OF conn pk u(1) valid call Cons i(3) i(1) i(2)] by blast
  show "\<exists>i. sent (snd (upsert_call gremlin_store c u k w)) =
               sent w @ [find_query ?pk (c_label k) u (c_value k),
                         update_query ?pk i (c_label k) u ?filt]"
    using up by auto
  show "length (store (snd (upsert_call gremlin_store c u k w))) = length (store w)"
    using up by simp
  have "vertices_with (c_label k) u (AQuoted (c_value k)) (map ?f (store w)) =
        map ?f (vertices_with (c_label k) u (AQuoted (c_value k)) (store w))"
    by (rule store_ok_map(2)[OF ok]) (rule update_keeps)+
  then show "length (vertices_with (c_label k) u (AQuoted (c_value k))
                   (store (snd (upsert_call gremlin_store c u k w)))) =
         length (vertices_with (c_label k) u (AQuoted (c_value k)) (store w))"
    using up by simp
qed

lemma upsert_call_present:
  assumes conn: "gremlin_client c" and pk: "plain (partition_key_field c)"
    and u: "clean u" "u \<noteq> partition_key_field c"
    and ok: "store_ok (partition_key_field c) u (store w)"
    and call: "call_ok u k" and valid: "c_label k \<noteq> []" "c_id k \<noteq> []" "u \<noteq> []"
  shows "length (vertices_with (c_label k) u (AQuoted (c_value k))
                   (store (snd (upsert_call gremlin_store c u k w)))) = 1"
proof (cases "vertices_with (c_label k) u (AQuoted (c_value k)) (store w) = []")
  case True
  let ?nv = "new_vertex (partition_key_field c) (c_label k) (c_id k)
               (filtered_properties u (c_value k) (c_props k))"
  have Nil: "filter (looked_up (partition_key_field c) (c_label k) u (c_value k)) (store w) = []"
    using True looked_up_vertices_with[OF ok] by simp
  have st: "store (snd (upsert_call gremlin_store c u k w)) = store w @ [?nv]"
    using upsert_creates[OF conn pk u(1) valid call Nil] by simp
  show ?thesis
    unfolding st
    by (simp add: vertices_with_append True new_vertex_label new_vertex_unique[OF u(2) call])
next
  case False
  have "length (vertices_with (c_label k) u (AQuoted (c_value k)) (store w)) \<le> 1"
    using ok by (simp add: store_ok_def unique_property_def)
  then have "length (vertices_with (c_label k) u (AQuoted (c_value k)) (store w)) = 1"
    using False by (cases "vertices_with (c_label k) u (AQuoted (c_value k)) (store w)") auto
  then show ?thesis
    using upsert_call_existing(3)[OF conn pk u ok call valid False] by simp
qed

text \<open>
  Claim C1, amended. Let the partition-key field hold neither quote nor backslash, and
  let \<open>u\<close> be a unique property name without backslash that is not the partition-key
  field. Start from a store in which every vertex carries its label as partition key and
  has a non-empty id without backslash, and in which no two vertices share a label and a
  value of \<open>u\<close>. Then every sequence of \<open>upsert_vertex\<close> calls with unique property \<open>u\<close>
  leaves such a store, provided each call has texts without backslash, properties that
  agree with its unique value on \<open>u\<close>, and \<open>id_value\<close> equal to the unique value when \<open>u\<close>
  is \<open>id\<close>. On a connected client, two such calls with the same non-empty arguments leave
  exactly one vertex with that label and unique value: the second call adds no vertex
  and sends the lookup and an update statement.
\<close>

theorem upsert_keeps_unique_property:
  assumes pk: "plain (partition_key_field c)" and u: "clean u" "u \<noteq> partition_key_field c"
    and ok: "store_ok (partition_key_field c) u (store w)"
    and calls: "\<forall>k\<in>set calls. call_ok u k"
  shows "store_ok (partition_key_field c) u (store (upsert_all gremlin_store c u calls w)) \<and>
         unique_property u (store (upsert_all gremlin_store c u calls w)) \<and>
         (gremlin_client c \<and> call_ok u k \<and> c_label k \<noteq> [] \<and> c_id k \<noteq> [] \<and> u \<noteq> [] \<longrightarrow>
            length (vertices_with (c_label k) u (AQuoted (c_value k))
                      (store (snd (upsert_call gremlin_store c u k
                                     (snd (upsert_call gremlin_store c u k w)))))) = 1 \<and>
            length (store (snd (upsert_call gremlin_store c u k (snd (upsert_call gremlin_store c u k w))))) =
              length (store (snd (upsert_call gremlin_store c u k w))) \<and>
            (\<exists>i. sent (snd (upsert_call gremlin_store c u k (snd (upsert_call gremlin_store c u k w)))) =
                    sent (snd (upsert_call gremlin_store c u k w)) @
                    [find_query (partition_key_field c) (c_label k) u (c_value k),
                     update_query (partition_key_field c) i (c_label k) u
                       (filtered_properties u (c_value k) (c_props k))]))"
proof (intro conjI impI)
  show inv: "store_ok (partition_key_field c) u (store (upsert_all gremlin_store c u calls w))"
    by (rule upsert_all_store_ok[OF pk u ok calls])
  then show "unique_property u (store (upsert_all gremlin_store c u calls w))"
    by (simp add: store_ok_def)
next
  assume a: "gremlin_client c \<and> call_ok u k \<and> c_label k \<noteq> [] \<and> c_id k \<noteq> [] \<and> u \<noteq> []"
  let ?w1 = "snd (upsert_call gremlin_store c u k w)"
  have ok1: "store_ok (partition_key_field c) u (store ?w1)"
    using upsert_call_store_ok[OF pk u ok] a by simp
  have one: "length (vertices_with (c_label k) u (AQuoted (c_value k)) (store ?w1)) = 1"
    using upsert_call_present[OF _ pk u ok] a by simp
  then have ne: "vertices_with (c_label k) u (AQuoted (c_value k)) (store ?w1) \<noteq> []"
    by auto
  show "length (vertices_with (c_label k) u (AQuoted (c_value k))
                      (store (snd (upsert_call gremlin_store c u k ?w1)))) = 1"
    using upsert_call_existing(3)[OF _ pk u ok1 _ _ _ _ ne] a one by simp
  show "length (store (snd (upsert_call gremlin_store c u k ?w1))) = length (store ?w1)"
    using upsert_call_existing(2)[OF _ pk u ok1 _ _ _ _ ne] a by simp
  show "\<exists>i. sent (snd (upsert_call gremlin_store c u k ?w1)) =
                    sent ?w1 @
                    [find_query (partition_key_field c) (c_label k) u (c_value k),
                     update_query (partition_key_field c) i (c_label k) u
                       (filtered_properties u (c_value k) (c_props k))]"
    using upsert_call_existing(1)[OF _ pk u ok1 _ _ _ _ ne] a by simp
qed

theorem upsert_keeps_unique_property_witness:
  "unique_property ''id''
     (store (upsert_all gremlin_store orchestrator_client ''id'' [domain_call, domain_call]
               (initial_world []))) \<and>
   length (vertices_with ''Domain'' ''id'' (AQuoted ''D1'')
             (store (snd (upsert_call gremlin_store orchestrator_client ''id'' domain_call
                (snd (upsert_call gremlin_store orchestrator_client ''id'' domain_call
                        (initial_world []))))))) = 1"
proof -
  have pk: "plain (partition_key_field orchestrator_client)"
    by (simp add: plain_def orchestrator_client_def)
  have u: "clean ''id''" "''id'' \<noteq> partition_key_field orchestrator_client"
    by (simp_all add: clean_def orchestrator_client_def)
  have ok: "store_ok (partition_key_field orchestrator_client) ''id'' (store (initial_world []))"
    by (simp add: store_ok_def unique_property_def vertices_with_def initial_world_def)
  have call: "call_ok ''id'' domain_call"
    by (simp add: call_ok_def domain_call_def clean_def clean_entry_def)
  have calls: "\<forall>k\<in>set [domain_call, domain_call]. call_ok ''id'' k"
    using call by simp
  have conn: "gremlin_client orchestrator_client" by (simp add: orchestrator_client_def)
  show ?thesis
    using upsert_keeps_unique_property[OF pk u ok calls, of domain_call] call conn
    by (simp add: domain_call_def)
qed

lemma conflicting_store:
  "store (upsert_all gremlin_store orchestrator_client ''name'' conflicting_calls (initial_world [])) =
     [\<lparr>v_label = ''Domain'',
       v_props = [(''id'', AQuoted ''d1''), (''resourceType'', AQuoted ''Domain''),
                  (''name'', AQuoted ''B'')]\<rparr>,
      \<lparr>v_label = ''Domain'',
       v_props = [(''id'', AQuoted ''d2''), (''resourceType'', AQuoted ''Domain''),
                  (''name'', AQuoted ''B'')]\<rparr>]"
  by code_simp

text \<open>
  Claim C1, as the claim states it: from a store that satisfies the invariant, sequential
  upserts should keep at most one vertex for each label and unique value. Two upserts of
  the unique value \<open>A\<close> of \<open>name\<close> with the properties \<open>{name: B}\<close> on the empty store:
  the properties win over the unique value, both lookups for \<open>A\<close> find nothing, and the
  store ends with two \<open>Domain\<close> vertices named \<open>B\<close>.
\<close>

theorem upsert_conflicting_properties_duplicate:
  "unique_property ''name'' (store (initial_world [])) \<and>
   length (vertices_with ''Domain'' ''name'' (AQuoted ''B'')
     (store (upsert_all gremlin_store orchestrator_client ''name'' conflicting_calls
               (initial_world [])))) = 2 \<and>
   \<not> unique_property ''name''
     (store (upsert_all gremlin_store orchestrator_client ''name'' conflicting_calls
               (initial_world [])))"
proof -
  have two: "length (vertices_with ''Domain'' ''name'' (AQuoted ''B'')
     (store (upsert_all gremlin_store orchestrator_client ''name'' conflicting_calls
               (initial_world [])))) = 2"
    unfolding conflicting_store by (simp add: vertices_with_def get_prop_def)
  then have "\<not> unique_property ''name''
     (store (upsert_all gremlin_store orchestrator_client ''name'' conflicting_calls
               (initial_world [])))"
    unfolding unique_property_def
    by (metis Suc_1 not_less_eq_eq order_refl)
  then show ?thesis
    using two by (simp add: unique_property_def vertices_with_def initial_world_def)
qed

section \<open>The orchestrator\<close>

lemma show_nat_10: "show_nat 10 = ''10''"
  by (simp add: show_nat.simps digit_char_def)

lemma drop_query_text: "drop_query = ''g.V().limit(10).drop()''"
  by (simp add: drop_query_def drop_limit_def show_nat_10)

lemma limit_marked_rest:
  "length (filter (\<lambda>(b, x). \<not> b) (limit_marked n (map (\<lambda>x. (True, x)) vs))) = length vs - n"
  by (induction vs arbitrary: n) (auto split: nat.splits)

lemma store_count: "gremlin_store count_query vs = (Some [RInt (int (length vs))], vs)"
proof -
  have "parse_statement count_query = Some [Step ''V'' [], Step ''count'' []]"
    by (simp add: count_query_def parse_statement_def tokens_def parse_steps_def flush_word_def)
  then show ?thesis
    by (simp add: gremlin_store_def comp_def)
qed

lemma store_drop: "length (snd (gremlin_store drop_query vs)) = length vs - drop_limit"
proof -
  have "parse_statement drop_query =
          Some [Step ''V'' [], Step ''limit'' [ABare ''10''], Step ''drop'' []]"
    by (simp add: drop_query_text parse_statement_def tokens_def parse_steps_def flush_word_def)
  moreover have "read_nat ''10'' = Some 10"
    by (simp add: read_nat_def digit_value_def)
  ultimately show ?thesis
    by (simp add: gremlin_store_def limit_marked_rest drop_limit_def)
qed

lemma run_query_count:
  assumes "gremlin_client c" "srv count_query (store w) = (Some rows, s)"
  shows "run_query srv c count_query w = (rows, w\<lparr>store := s, sent := sent w @ [count_query]\<rparr>)"
  using assms by (simp add: run_query_def execute_query_def submit_def)

lemma run_query_sent:
  "gremlin_client c \<Longrightarrow> sent (snd (run_query srv c q w)) = sent w @ [q]"
  by (auto simp: run_query_def execute_query_def submit_def print_error_def
      split: prod.splits option.splits)

lemma run_query_store:
  "gremlin_client c \<Longrightarrow> store (snd (run_query srv c q w)) = snd (srv q (store w))"
  by (auto simp: run_query_def execute_query_def submit_def print_error_def
      split: prod.splits option.splits)

lemma rounds_step:
  assumes "0 < n"
  shows "(n + drop_limit - 1) div drop_limit = Suc ((n - drop_limit + drop_limit - 1) div drop_limit)"
proof (cases "n \<le> drop_limit")
  case True
  then have "(n + drop_limit - 1) div drop_limit = 1"
    using assms by (intro div_nat_eqI) (simp_all add: drop_limit_def)
  moreover have "(n - drop_limit + drop_limit - 1) div drop_limit = 0"
    using True by (simp add: drop_limit_def)
  ultimately show ?thesis by simp
next
  case False
  then have "n + drop_limit - 1 = (n - 1) + drop_limit" "n - drop_limit + drop_limit - 1 = n - 1"
    by (simp_all add: drop_limit_def)
  then show ?thesis by (simp add: drop_limit_def)
qed

text \<open>
  Claim C8. Let the store answer the count statement with the number \<open>cnt\<close> of its
  vertices, and let the batch statement remove \<open>drop_limit\<close> of them (all of them when
  fewer are left). On a connected client the drain loop returns; it has then sent
  \<open>cnt / drop_limit\<close> rounded up rounds of a count and a batch deletion, followed by one
  count, which saw zero, and the store is empty.
\<close>

theorem drain_loop_rounds:
  assumes conn: "gremlin_client c"
    and count: "\<forall>s. srv count_query s = (Some [RInt (int (cnt s))], s)"
    and drop: "\<forall>s. cnt (snd (srv drop_query s)) = cnt s - drop_limit"
  shows "\<exists>w'. drain_loop srv c w = Some (Inr (), w') \<and> cnt (store w') = 0 \<and>
           sent w' = sent w @
             concat (replicate ((cnt (store w) + drop_limit - 1) div drop_limit) [count_query, drop_query]) @
             [count_query]"
proof (induction "cnt (store w)" arbitrary: w rule: less_induct)
  case less
  let ?w1 = "w\<lparr>sent := sent w @ [count_query]\<rparr>"
  have rq: "run_query srv c count_query w = ([RInt (int (cnt (store w)))], ?w1)"
    using run_query_count[OF conn, of srv w] count by simp
  show ?case
  proof (cases "cnt (store w) = 0")
    case True
    have z: "(drop_limit - Suc 0) div drop_limit = 0"
      by (simp add: drop_limit_def)
    show ?thesis
      by (subst drain_loop.simps) (simp add: rq True z)
  next
    case False
    let ?w2 = "snd (run_query srv c drop_query ?w1)"
    have st: "cnt (store ?w2) = cnt (store w) - drop_limit"
      using drop by (simp add: run_query_store[OF conn])
    have se: "sent ?w2 = sent w @ [count_query, drop_query]"
      by (simp add: run_query_sent[OF conn])
    have "cnt (store ?w2) < cnt (store w)"
      using st False by (simp add: drop_limit_def)
    from less[OF this] obtain w' where w': "drain_loop srv c ?w2 = Some (Inr (), w')"
      "cnt (store w') = 0"
      "sent w' = sent ?w2 @ concat (replicate ((cnt (store ?w2) + drop_limit - 1) div drop_limit)
                   [count_query, drop_query]) @ [count_query]"
      by blast
    have rounds: "(cnt (store w) + drop_limit - 1) div drop_limit =
                  Suc ((cnt (store ?w2) + drop_limit - 1) div drop_limit)"
      unfolding st using False by (intro rounds_step) simp
    have "drain_loop srv c w = Some (Inr (), w')"
      using False by (subst drain_loop.simps) (simp add: rq w'(1))
    moreover have "sent w' = sent w @
             concat (replicate ((cnt (store w) + drop_limit - 1) div drop_limit) [count_query, drop_query]) @
             [count_query]"
      unfolding w'(3) se rounds by simp
    ultimately show ?thesis
      using w'(2) by blast
  qed
qed

theorem drain_loop_rounds_witness:
  "\<exists>w'. drain_loop gremlin_store orchestrator_client
           (initial_world (replicate 25 \<lparr>v_label = ''Table'', v_props = []\<rparr>)) = Some (Inr (), w') \<and>
         store w' = [] \<and>
         sent w' = [count_query, drop_query, count_query, drop_query, count_query, drop_query,
                    count_query]"
proof -
  let ?w = "initial_world (replicate 25 \<lparr>v_label = ''Table'', v_props = []\<rparr>)"
  have conn: "gremlin_client orchestrator_client"
    by (simp add: orchestrator_client_def)
  have cnt: "\<forall>s. gremlin_store count_query s = (Some [RInt (int (length s))], s)"
    by (simp add: store_count)
  have drp: "\<forall>s. length (snd (gremlin_store drop_query s)) = length s - drop_limit"
    by (simp add: store_drop)
  have rounds: "(length (store ?w) + drop_limit - 1) div drop_limit = 3"
    by (simp add: initial_world_def drop_limit_def)
  have tr: "sent ?w @ concat (replicate 3 [count_query, drop_query]) @ [count_query] =
            [count_query, drop_query, count_query, drop_query, count_query, drop_query, count_query]"
    by (simp add: initial_world_def eval_nat_numeral)
  show ?thesis
    using drain_loop_rounds[where c = orchestrator_client and srv = gremlin_store
          and cnt = length and w = ?w, OF conn cnt drp]
    unfolding rounds tr by simp
qed

lemma sent_create_edge:
  "gremlin_client c \<Longrightarrow> g c \<Longrightarrow>
   sent (snd (create_edge srv c a b l p w)) = sent w @ [create_edge_query a b l p]"
  by (auto simp: create_edge_def execute_query_def submit_def print_error_def
      split: prod.splits option.splits)

lemma sent_relation_loop:
  "gremlin_client c \<Longrightarrow> g c \<Longrightarrow>
   sent (relation_loop srv c rels w) = sent w @ map relation_edge_query (filter has_both_ids rels)"
  by (induction rels arbitrary: w)
     (simp_all add: Let_def has_both_ids_def relation_edge_query_def sent_create_edge)

text \<open>
  Claim C10. The loop over the relations calls \<open>create_edge\<close> for a relation exactly when
  its \<open>source_id\<close> and its \<open>target_id\<close> are both truthy; for any other relation it does
  nothing (no statement, no error printed) and goes on with the rest. On a connected
  client the statements sent are the \<open>relatedTo\<close> edges of the relations with both ids, in
  order.
\<close>

theorem relation_loop_edges:
  "(gremlin_client c \<and> g c \<longrightarrow>
      sent (relation_loop srv c rels w) = sent w @ map relation_edge_query (filter has_both_ids rels)) \<and>
   relation_loop srv c (rel # rels) w =
     (if has_both_ids rel
      then relation_loop srv c rels
             (snd (create_edge srv c (dict_get rel ''source_id'') (dict_get rel ''target_id'')
                     ''relatedTo'' (Some [(''relationTypeId'', dict_get rel ''relation_type_id'')]) w))
      else relation_loop srv c rels w)"
  by (simp add: sent_relation_loop Let_def has_both_ids_def)

theorem relation_loop_edges_witness:
  "sent (relation_loop (\<lambda>q s. (Some [], s)) orchestrator_client
      [[(''source_id'', VStr ''A1''), (''target_id'', VStr []), (''relation_type_id'', VStr ''R0'')],
       [(''source_id'', VStr ''A1''), (''target_id'', VStr ''A2''), (''relation_type_id'', VStr ''R1'')],
       [(''target_id'', VStr ''A3''), (''relation_type_id'', VStr ''R2'')]]
      (initial_world ())) =
     [''g.V('A1').addE('relatedTo').to(g.V('A2')).property('relationTypeId', 'R1')'']"
  using relation_loop_edges[of orchestrator_client "\<lambda>q s. (Some [], s)"
      "[[(''source_id'', VStr ''A1''), (''target_id'', VStr []), (''relation_type_id'', VStr ''R0'')],
        [(''source_id'', VStr ''A1''), (''target_id'', VStr ''A2''), (''relation_type_id'', VStr ''R1'')],
        [(''target_id'', VStr ''A3''), (''relation_type_id'', VStr ''R2'')]]"
      "initial_world ()"]
  by (simp add: orchestrator_client_def initial_world_def has_both_ids_def dict_get_def
      relation_edge_query_def create_edge_query_def format_properties_def format_property_def
      quoted_def escape_gremlin_string_def)

end
